theory Spec2Isabelle
  imports Complex_Main "HOL-Library.Word" "HOL-Library.Log_Nat"
begin

unbundle bit_operations_syntax

section \<open>IEEE 754 binary64 values, as far as \<open>xtal.cpp\<close> uses them\<close>

text \<open>
  A C++ \<open>double\<close> is a finite binary64 number, a signed zero, an infinity or a NaN.
  \<open>Finite 0\<close> is the positive zero, \<open>NegZero\<close> the negative one. Arithmetic rounds to
  nearest, ties to even, which is the default rounding mode of the C++ runtime.
\<close>

datatype double = Finite rat | NegZero | PosInf | NegInf | NaN

fun fin_val :: "double \<Rightarrow> rat" where
  "fin_val (Finite q) = q"
| "fin_val _ = 0"

fun is_zero :: "double \<Rightarrow> bool" where
  "is_zero (Finite q) = (q = 0)"
| "is_zero NegZero = True"
| "is_zero _ = False"

fun is_finite :: "double \<Rightarrow> bool" where
  "is_finite (Finite q) = True"
| "is_finite NegZero = True"
| "is_finite _ = False"

fun sign_neg :: "double \<Rightarrow> bool" where
  "sign_neg (Finite q) = (q < 0)"
| "sign_neg NegZero = True"
| "sign_neg NegInf = True"
| "sign_neg _ = False"

text \<open>The comparison operators of C++ on doubles: every comparison with a NaN is false,
  and the two zeros are equal.\<close>

fun deq :: "double \<Rightarrow> double \<Rightarrow> bool" where
  "deq NaN _ = False"
| "deq _ NaN = False"
| "deq PosInf y = (y = PosInf)"
| "deq NegInf y = (y = NegInf)"
| "deq x PosInf = False"
| "deq x NegInf = False"
| "deq x y = (fin_val x = fin_val y)"

fun dlt :: "double \<Rightarrow> double \<Rightarrow> bool" where
  "dlt NaN _ = False"
| "dlt _ NaN = False"
| "dlt PosInf _ = False"
| "dlt _ NegInf = False"
| "dlt NegInf _ = True"
| "dlt _ PosInf = True"
| "dlt x y = (fin_val x < fin_val y)"

definition dgt :: "double \<Rightarrow> double \<Rightarrow> bool" where
  "dgt x y = dlt y x"

definition dle :: "double \<Rightarrow> double \<Rightarrow> bool" where
  "dle x y = (dlt x y \<or> deq x y)"

text \<open>Conversion to \<open>bool\<close>, as in \<open>if(xtal_error_low && xtal_error_high)\<close>: a double is
  true when it compares unequal to zero.\<close>

fun truthy :: "double \<Rightarrow> bool" where
  "truthy NaN = True"
| "truthy x = (\<not> deq x (Finite 0))"

subsection \<open>Rounding to nearest, ties to even\<close>

text \<open>\<open>ilog2 x\<close> is the binary exponent of a positive rational: \<open>2 ^ ilog2 x \<le> x < 2 ^ (ilog2 x + 1)\<close>.\<close>

definition ilog2 :: "rat \<Rightarrow> int" where
  "ilog2 x =
     (let (p, q) = quotient_of x;
          d = bitlen p - bitlen q
      in if 2 powi d \<le> x then d else d - 1)"

definition round_even :: "rat \<Rightarrow> int" where
  "round_even y =
     (let f = \<lfloor>y\<rfloor>; r = y - of_int f
      in if r < 1 / 2 then f
         else if 1 / 2 < r then f + 1
         else if even f then f else f + 1)"

text \<open>The magnitude of a positive rational rounded to 53 significant bits, with the
  exponent bounded below by that of the subnormal numbers.\<close>

definition round_mag :: "rat \<Rightarrow> rat" where
  "round_mag x =
     (let e = max (ilog2 x) (- 1022);
          ulp = 2 powi (e - 52)
      in of_int (round_even (x / ulp)) * ulp)"

definition rnd :: "rat \<Rightarrow> double" where
  "rnd x =
     (if x = 0 then Finite 0
      else let r = round_mag \<bar>x\<bar>
           in if 2 ^ 1024 \<le> r then (if 0 < x then PosInf else NegInf)
              else if r = 0 then (if 0 < x then Finite 0 else NegZero)
              else Finite (if 0 < x then r else - r))"

text \<open>A value of the model is a double when rounding leaves it unchanged.\<close>

fun is_binary64 :: "double \<Rightarrow> bool" where
  "is_binary64 (Finite x) = (rnd x = Finite x)"
| "is_binary64 _ = True"

subsection \<open>The arithmetic the validation uses\<close>

fun dneg :: "double \<Rightarrow> double" where
  "dneg (Finite q) = (if q = 0 then NegZero else Finite (- q))"
| "dneg NegZero = Finite 0"
| "dneg PosInf = NegInf"
| "dneg NegInf = PosInf"
| "dneg NaN = NaN"

text \<open>\<open>std::abs\<close> clears the sign.\<close>

fun dabs :: "double \<Rightarrow> double" where
  "dabs (Finite q) = Finite \<bar>q\<bar>"
| "dabs NegZero = Finite 0"
| "dabs PosInf = PosInf"
| "dabs NegInf = PosInf"
| "dabs NaN = NaN"

text \<open>\<open>x - y\<close>. An exact zero difference is \<open>+0\<close>, except \<open>(-0) - (+0) = -0\<close>.\<close>

fun dsub :: "double \<Rightarrow> double \<Rightarrow> double" where
  "dsub NaN _ = NaN"
| "dsub _ NaN = NaN"
| "dsub PosInf y = (if y = PosInf then NaN else PosInf)"
| "dsub NegInf y = (if y = NegInf then NaN else NegInf)"
| "dsub x PosInf = NegInf"
| "dsub x NegInf = PosInf"
| "dsub x y =
     (if fin_val x = fin_val y
      then (if x = NegZero \<and> y \<noteq> NegZero then NegZero else Finite 0)
      else rnd (fin_val x - fin_val y))"

definition signed_zero :: "bool \<Rightarrow> double" where
  "signed_zero neg = (if neg then NegZero else Finite 0)"

definition signed_inf :: "bool \<Rightarrow> double" where
  "signed_inf neg = (if neg then NegInf else PosInf)"

text \<open>\<open>x / y\<close>. The sign of a zero or infinite result is the exclusive or of the signs.\<close>

definition ddiv :: "double \<Rightarrow> double \<Rightarrow> double" where
  "ddiv x y =
     (let neg = (sign_neg x \<noteq> sign_neg y)
      in if x = NaN \<or> y = NaN then NaN
         else if is_finite x then
           (if is_finite y then
              (if is_zero y then (if is_zero x then NaN else signed_inf neg)
               else if is_zero x then signed_zero neg
               else rnd (fin_val x / fin_val y))
            else signed_zero neg)
         else (if is_finite y then signed_inf neg else NaN))"

text \<open>\<open>x * y\<close>, used for the constant \<open>2 * DBL_EPSILON\<close>.\<close>

definition dmul :: "double \<Rightarrow> double \<Rightarrow> double" where
  "dmul x y =
     (let neg = (sign_neg x \<noteq> sign_neg y)
      in if x = NaN \<or> y = NaN then NaN
         else if is_finite x \<and> is_finite y then
           (if is_zero x \<or> is_zero y then signed_zero neg
            else rnd (fin_val x * fin_val y))
         else if is_zero x \<or> is_zero y then NaN
         else signed_inf neg)"

text \<open>\<open>DBL_EPSILON\<close> of \<open><cfloat>\<close>: the gap between 1 and the next double.\<close>

definition DBL_EPSILON :: double where
  "DBL_EPSILON = Finite (1 / 2 ^ 52)"

section \<open>The reference table\<close>

text \<open>The entries of \<open>XTAL::known_xtals\<close>, in the order of the source. The source writes
  them as integer literals; each is converted to \<open>double\<close> without rounding.\<close>

definition xtal_hz :: "int list" where
  "xtal_hz =
    [
     32768, 38400, 384000, 400000, 430000, 455000,
     512000, 600000, 640000, 960000, 1000000, 1008000,
     1056000, 1294400, 1689600, 1750000, 1797100, 1843200,
     2000000, 2012160, 2097152, 2457600, 2500000, 2950000,
     3000000, 3072000, 3120000, 3521280, 3570000, 3578640,
     3579545, 3686400, 3840000, 3900000, 4000000, 4028000,
     4032000, 4096000, 4194304, 4224000, 4410000, 4433610,
     4433619, 4608000, 4915200, 5000000, 5068800, 5185000,
     5460000, 5529600, 5626000, 5670000, 5714300, 5911000,
     5990400, 6000000, 6144000, 6400000, 6500000, 6880000,
     6900000, 7000000, 7159090, 7372800, 7864300, 7987000,
     8000000, 8200000, 8388000, 8448000, 8467200, 8664000,
     8700000, 8867236, 8867238, 8945000, 9216000, 9828000,
     9830400, 9832000, 9877680, 9987000, 10000000, 10137600,
     10245000, 10380000, 10500000, 10595000, 10644500, 10687500,
     10694250, 10717200, 10730000, 10733000, 10738635, 10816000,
     10920000, 11000000, 11059200, 11200000, 11289000, 11400000,
     11668800, 11800000, 11980800, 12000000, 12057600, 12096000,
     12288000, 12324000, 12432000, 12472500, 12480000, 12500000,
     12672000, 12800000, 12854400, 12936000, 12979200, 13300000,
     13330560, 13333000, 13400000, 13478400, 13495200, 13516800,
     13608000, 13824000, 14000000, 14112000, 14192640, 14218000,
     14300000, 14314000, 14318181, 14705882, 14745600, 14784000,
     14916000, 14976000, 15000000, 15148800, 15288000, 15300720,
     15360000, 15400000, 15468480, 15582000, 15700000, 15897600,
     15920000, 15974400, 16000000, 16097280, 16128000, 16384000,
     16400000, 16572000, 16588800, 16669800, 16670000, 16777216,
     16934400, 17064000, 17360000, 17550000, 17600000, 17734470,
     17734472, 17971200, 18000000, 18432000, 18480000, 18575000,
     18720000, 18869600, 19339600, 19600000, 19602000, 19660800,
     19661400, 19923000, 19968000, 20000000, 20160000, 20275200,
     20625000, 20790000, 21000000, 21052600, 21060000, 21254400,
     21281370, 21300000, 21477272, 22000000, 22032000, 22096000,
     22118400, 22321000, 22464000, 22656000, 22896000, 23814000,
     23961600, 24000000, 24073400, 24576000, 24883200, 25000000,
     25174800, 25200000, 25398360, 25400000, 25447000, 25590906,
     25593900, 25771500, 25920000, 26000000, 26366000, 26580000,
     26601712, 26666000, 26666666, 26686000, 26989200, 27000000,
     27164000, 27210900, 27562000, 28000000, 28322000, 28375160,
     28475000, 28480000, 28636363, 28640000, 28700000, 29376000,
     29491200, 30000000, 30476100, 30800000, 31279500, 31684000,
     31948800, 32000000, 32147000, 32220000, 32317400, 32530400,
     33000000, 33264000, 33333000, 33833000, 33868800, 34000000,
     34291712, 34846000, 35904000, 36000000, 37980000, 38769220,
     38863630, 39321600, 39710000, 40000000, 40210000, 42000000,
     42105200, 42954545, 43320000, 44100000, 44452800, 45000000,
     45158000, 45619200, 45830400, 46615120, 47736000, 48000000,
     48384000, 48556800, 48654000, 48660000, 49152000, 49423500,
     50000000, 50113000, 50349000, 51200000, 52000000, 52832000,
     53203400, 53693175, 54000000, 55000000, 57272727, 58000000,
     59292000, 60000000, 61440000, 64000000, 66666700, 67737600,
     68850000, 69551990, 72000000, 72576000, 73728000, 80000000,
     87183360, 100000000, 101491200, 200000000
    ]"

definition known_xtals :: "double list" where
  "known_xtals = map (\<lambda>n. Finite (of_int n)) xtal_hz"

section \<open>The validation state and \<open>XTAL::validate(double)\<close>\<close>

text \<open>The three static members \<open>last_correct_value\<close>, \<open>xtal_error_low\<close> and
  \<open>xtal_error_high\<close>, with their initial values \<open>-1\<close>, \<open>0\<close> and \<open>0\<close>.\<close>

record xtal_state =
  last_correct_value :: double
  xtal_error_low :: double
  xtal_error_high :: double

definition initial_state :: xtal_state where
  "initial_state =
     \<lparr>last_correct_value = Finite (- 1), xtal_error_low = Finite 0, xtal_error_high = Finite 0\<rparr>"

text \<open>Reading an array outside its bounds is undefined behaviour in C++; the model makes
  it a fault, so that a proof of fault freedom is a proof that every index is in range.\<close>

datatype fault = OutOfBounds

definition table_at :: "double list \<Rightarrow> 32 word \<Rightarrow> fault + double" where
  "table_at tbl i = (if unat i < length tbl then Inr (tbl ! unat i) else Inl OutOfBounds)"

text \<open>How the \<open>while(step)\<close> loop is left: by \<open>return true\<close> from inside the loop, or by
  \<open>step\<close> reaching zero with the final \<open>slot\<close>.\<close>

datatype loop_exit = Returned_true | Fell_through "32 word"

text \<open>The tolerance test of the loop body:
  \<open>std::abs((base_clock - sfreq) / base_clock) <= 2 * DBL_EPSILON\<close>.\<close>

definition within_tolerance :: "double \<Rightarrow> double \<Rightarrow> bool" where
  "within_tolerance base_clock sfreq =
     (let diff = dabs (ddiv (dsub base_clock sfreq) base_clock)
      in dle diff (dmul (Finite 2) DBL_EPSILON))"

lemma step_halves: "step \<noteq> 0 \<Longrightarrow> unat (drop_bit (Suc 0) step) < unat (step :: 32 word)"
proof -
  assume "step \<noteq> 0"
  then have "0 < unat step"
    by (simp add: unat_gt_0)
  moreover have "unat (drop_bit (Suc 0) step) = unat step div 2"
    by (simp add: drop_bit_eq_div unat_div)
  ultimately show ?thesis
    by simp
qed

text \<open>The loop, with the table and \<open>last_index\<close> as parameters. The source's table is
  the static array \<open>known_xtals\<close> and its \<open>last_index\<close> is computed from \<open>sizeof\<close>.\<close>

function search :: "double list \<Rightarrow> 32 word \<Rightarrow> double \<Rightarrow> 32 word \<Rightarrow> 32 word \<Rightarrow> fault + loop_exit" where
  "search tbl last_index base_clock slot step =
     (if step = 0 then Inr (Fell_through slot)
      else if slot > last_index
        then search tbl last_index base_clock (slot XOR (step OR drop_bit 1 step)) (drop_bit 1 step)
      else
        (case table_at tbl slot of
           Inl e \<Rightarrow> Inl e
         | Inr sfreq \<Rightarrow>
             if within_tolerance base_clock sfreq then Inr Returned_true
             else if dgt base_clock sfreq
               then search tbl last_index base_clock (slot OR drop_bit 1 step) (drop_bit 1 step)
             else search tbl last_index base_clock (slot XOR (step OR drop_bit 1 step)) (drop_bit 1 step)))"
  by pat_completeness auto
termination
  by (relation "measure (\<lambda>(tbl, last_index, base_clock, slot, step). unat step)")
    (simp_all add: step_halves)

declare search.simps [simp del]

text \<open>\<open>ppow2\<close>: the bit fill of \<open>last_index\<close> and the isolation of its top bit.\<close>

definition ppow2_of :: "32 word \<Rightarrow> 32 word" where
  "ppow2_of last_index =
     (let fill1 = last_index OR drop_bit 1 last_index;
          fill2 = fill1 OR drop_bit 2 fill1;
          fill4 = fill2 OR drop_bit 4 fill2;
          fill8 = fill4 OR drop_bit 8 fill4;
          fill16 = fill8 OR drop_bit 16 fill8
      in fill16 - drop_bit 1 fill16)"

text \<open>\<open>XTAL::validate(double)\<close> over a table. The result is a fault, or the returned
  boolean with the state after the call.\<close>

definition validate_on :: "double list \<Rightarrow> double \<Rightarrow> xtal_state \<Rightarrow> fault + (bool \<times> xtal_state)" where
  "validate_on tbl base_clock st =
     (if deq base_clock (last_correct_value st) then Inr (True, st)
      else
        let xtal_count = (of_nat (length tbl) :: 32 word);
            last_index = xtal_count - 1;
            ppow2 = ppow2_of last_index
        in case search tbl last_index base_clock ppow2 ppow2 of
             Inl e \<Rightarrow> Inl e
           | Inr Returned_true \<Rightarrow> Inr (True, st\<lparr>last_correct_value := base_clock\<rparr>)
           | Inr (Fell_through slot) \<Rightarrow>
               (case table_at tbl slot of
                  Inl e \<Rightarrow> Inl e
                | Inr sfreq \<Rightarrow>
                    if deq base_clock sfreq
                      then Inr (True, st\<lparr>last_correct_value := base_clock\<rparr>)
                    else if dlt base_clock sfreq then
                      (if slot \<noteq> 0 then
                         (case table_at tbl (slot - 1) of
                            Inl e \<Rightarrow> Inl e
                          | Inr lo \<Rightarrow> Inr (False, st\<lparr>xtal_error_low := lo, xtal_error_high := sfreq\<rparr>))
                       else Inr (False, st\<lparr>xtal_error_low := Finite 0, xtal_error_high := sfreq\<rparr>))
                    else
                      (if slot < last_index then
                         (case table_at tbl (slot + 1) of
                            Inl e \<Rightarrow> Inl e
                          | Inr hi \<Rightarrow> Inr (False, st\<lparr>xtal_error_high := hi, xtal_error_low := sfreq\<rparr>))
                       else Inr (False, st\<lparr>xtal_error_high := Finite 0, xtal_error_low := sfreq\<rparr>))))"

text \<open>\<open>XTAL::validate(double)\<close> itself searches \<open>known_xtals\<close>.\<close>

definition validate :: "double \<Rightarrow> xtal_state \<Rightarrow> fault + (bool \<times> xtal_state)" where
  "validate = validate_on known_xtals"

text \<open>The suggestions \<open>XTAL::fail\<close> puts into its message: both brackets when both are
  non-zero, otherwise the low bracket when it is non-zero and the high one when not.\<close>

definition fail_suggestions :: "xtal_state \<Rightarrow> double list" where
  "fail_suggestions st =
     (if truthy (xtal_error_low st) \<and> truthy (xtal_error_high st)
      then [xtal_error_low st, xtal_error_high st]
      else [if truthy (xtal_error_low st) then xtal_error_low st else xtal_error_high st])"


section \<open>The tolerance as the specification words it\<close>

text \<open>The specification states the tolerance in exact arithmetic:
  \<open>|candidate - entry| / candidate <= 2 * machineEpsilon\<close>. \<open>spec_within_tolerance\<close> is that
  inequality on rational numbers; \<open>within_tolerance\<close> above is what the code computes in
  binary64 arithmetic.\<close>

definition spec_within_tolerance :: "rat \<Rightarrow> rat \<Rightarrow> bool" where
  "spec_within_tolerance v entry = (\<bar>v - entry\<bar> / v \<le> 2 * (1 / 2 ^ 52))"

section \<open>The loop on natural numbers\<close>

text \<open>In every iteration \<open>step\<close> is a power of two \<open>2 ^ k\<close> and \<open>slot\<close> is \<open>base + 2 ^ k\<close>
  for a multiple \<open>base\<close> of \<open>2 ^ (k + 1)\<close>. \<open>walk\<close> is the loop in these terms: moving
  right makes \<open>slot\<close> the new base, moving left keeps the base. \<open>None\<close> stands for
  \<open>return true\<close> inside the loop. Lemma \<open>search_walk\<close> below shows that \<open>search\<close>
  computes exactly this.\<close>

fun walk :: "double list \<Rightarrow> nat \<Rightarrow> double \<Rightarrow> nat \<Rightarrow> nat \<Rightarrow> nat option" where
  "walk tbl last_index v base 0 =
     (if base + 1 > last_index then Some base
      else if within_tolerance v (tbl ! (base + 1)) then None
      else if dgt v (tbl ! (base + 1)) then Some (base + 1)
      else Some base)"
| "walk tbl last_index v base (Suc k) =
     (if base + 2 ^ Suc k > last_index then walk tbl last_index v base k
      else if within_tolerance v (tbl ! (base + 2 ^ Suc k)) then None
      else if dgt v (tbl ! (base + 2 ^ Suc k)) then walk tbl last_index v (base + 2 ^ Suc k) k
      else walk tbl last_index v base k)"

fun exit_of :: "nat option \<Rightarrow> loop_exit" where
  "exit_of None = Returned_true"
| "exit_of (Some n) = Fell_through (of_nat n)"

section \<open>The states the program can be in\<close>

text \<open>The static members start in \<open>initial_state\<close> and change only in calls of
  \<open>XTAL::validate(double)\<close>, whose argument is a double.\<close>

inductive reachable :: "xtal_state \<Rightarrow> bool" where
  start: "reachable initial_state"
| call: "reachable st \<Longrightarrow> is_binary64 base_clock \<Longrightarrow> validate base_clock st = Inr (b, st')
          \<Longrightarrow> reachable st'"

section \<open>Bit operations on \<open>slot\<close>\<close>

lemma dvd_push_bit: "2 ^ m dvd (base::nat) \<Longrightarrow> \<exists>c. base = push_bit m c"
  by (auto simp: dvd_def push_bit_eq_mult)

lemma low_bits_clear:
  assumes "2 ^ m dvd (base::nat)" and "bit base n"
  shows "m \<le> n"
proof -
  from assms(1) obtain c where "base = push_bit m c"
    using dvd_push_bit by blast
  with assms(2) have "bit (push_bit m c) n"
    by simp
  then show ?thesis
    by (simp only: bit_push_bit_iff)
qed

lemma slot_add_or:
  assumes "2 ^ Suc k dvd (base::nat)"
  shows "base + 2 ^ k = base OR 2 ^ k"
  by (rule disjunctive_add) (auto simp: bit_simps dest: low_bits_clear [OF assms])

lemma slot_right:
  assumes "2 ^ Suc (Suc j) dvd (base::nat)"
  shows "(base + 2 ^ Suc j) OR 2 ^ j = base + 2 ^ Suc j + 2 ^ j"
proof -
  have "2 ^ Suc j dvd base"
    using assms by (metis dvd_mult_left mult.commute power_Suc)
  then have "2 ^ Suc j dvd base + 2 ^ Suc j"
    by simp
  then show ?thesis
    by (simp only: slot_add_or)
qed

lemma slot_left:
  assumes "2 ^ Suc (Suc j) dvd (base::nat)"
  shows "(base + 2 ^ Suc j) XOR (2 ^ Suc j OR 2 ^ j) = base + 2 ^ j"
proof -
  have d: "2 ^ Suc j dvd base"
    using assms by (metis dvd_mult_left mult.commute power_Suc)
  have "(base OR 2 ^ Suc j) XOR (2 ^ Suc j OR 2 ^ j) = base OR 2 ^ j"
    by (rule bit_eqI) (auto simp: bit_simps dest: low_bits_clear [OF assms])
  then show ?thesis
    using slot_add_or [OF assms] slot_add_or [OF d] by simp
qed

lemma slot_left0:
  assumes "2 dvd (base::nat)"
  shows "(base + 1) XOR 1 = base"
proof -
  have low: "bit base n \<Longrightarrow> 1 \<le> n" for n
    using low_bits_clear [of 1 base n] assms by simp
  have "base + 1 = base OR 1"
    by (rule disjunctive_add) (auto simp: bit_simps dest: low)
  moreover have "(base OR 1) XOR 1 = base"
    by (rule bit_eqI) (auto simp: bit_simps dest: low)
  ultimately show ?thesis by simp
qed

lemma halve_step: "k < 31 \<Longrightarrow> drop_bit 1 ((2::32 word) ^ Suc k) = 2 ^ k"
  using drop_bit_exp_eq [of 1 "Suc k", where ?'a = "32 word"] by simp

lemma word_less_of_nat: "m < 2 ^ 32 \<Longrightarrow> n < 2 ^ 32 \<Longrightarrow> ((of_nat m :: 32 word) < of_nat n) = (m < n)"
  by (simp add: of_nat_word_less_iff take_bit_nat_eq_self)

lemma unat_of_nat32: "m < 2 ^ 32 \<Longrightarrow> unat (of_nat m :: 32 word) = m"
  by (simp add: unat_of_nat)

lemma table_at_of_nat: "n < length tbl \<Longrightarrow> n < 2 ^ 32 \<Longrightarrow> table_at tbl (of_nat n) = Inr (tbl ! n)"
  by (simp add: table_at_def unat_of_nat32)

subsection \<open>The word-level loop computes \<open>walk\<close>\<close>

lemma search_stop: "search tbl last_index v slot 0 = Inr (Fell_through slot)"
  by (simp add: search.simps)

lemma pow_bound: assumes "base + 2 ^ Suc k \<le> (2::nat) ^ 32" shows "k < 32"
proof (rule ccontr)
  assume "\<not> k < 32"
  then have "(2::nat) ^ 32 \<le> 2 ^ k"
    using power_increasing [of 32 k "2::nat"] by simp
  then show False using assms by simp
qed

lemma w_left0: "2 dvd base \<Longrightarrow> (of_nat (base + 1) :: 32 word) XOR 1 = of_nat base"
  using of_nat_xor_eq [of "base + 1" 1, where ?'a = "32 word"] slot_left0 [of base] by simp

lemma w_left: "2 ^ Suc (Suc j) dvd base \<Longrightarrow>
   (of_nat (base + 2 ^ Suc j) :: 32 word) XOR (2 ^ Suc j OR 2 ^ j) = of_nat (base + 2 ^ j)"
  using of_nat_xor_eq [of "base + 2 ^ Suc j" "2 ^ Suc j OR 2 ^ j", where ?'a = "32 word"] slot_left [of j base]
  by (simp add: of_nat_or_eq)

lemma w_right: "2 ^ Suc (Suc j) dvd base \<Longrightarrow>
   (of_nat (base + 2 ^ Suc j) :: 32 word) OR 2 ^ j = of_nat (base + 2 ^ Suc j + 2 ^ j)"
  using of_nat_or_eq [of "base + 2 ^ Suc j" "2 ^ j", where ?'a = "32 word"] slot_right [of j base]
  by simp


lemma search_walk:
  assumes "2 ^ Suc k dvd base" and "base + 2 ^ Suc k \<le> 2 ^ 32"
    and "last_index < length tbl" and "last_index < 2 ^ 32"
  shows "search tbl (of_nat last_index) v (of_nat (base + 2 ^ k)) (2 ^ k)
           = Inr (exit_of (walk tbl last_index v base k))"
  using assms(1,2)
proof (induction k arbitrary: base)
  case 0
  then have even: "2 dvd base" and small: "base + 1 < 2 ^ 32"
    by simp_all
  have gt: "((of_nat last_index :: 32 word) < of_nat (base + 1)) = (last_index < base + 1)"
    using word_less_of_nat [OF assms(4) small] .
  have at: "\<not> last_index < base + 1 \<Longrightarrow> table_at tbl (of_nat (base + 1)) = Inr (tbl ! (base + 1))"
    using assms(3) small by (intro table_at_of_nat) simp_all
  show ?case
    using gt at w_left0 [OF even]
    by (subst search.simps) (simp add: search_stop)
next
  case (Suc j)
  then have d: "2 ^ Suc (Suc j) dvd base"
    by simp
  have "(2::nat) ^ Suc j < 2 ^ Suc (Suc j)"
    by simp
  with Suc.prems(2) have small: "base + 2 ^ Suc j < 2 ^ 32"
    by linarith
  have j: "j < 31"
    using pow_bound [OF Suc.prems(2)] by simp
  have d': "2 ^ Suc j dvd base"
    using d by (metis dvd_mult_left mult.commute power_Suc)
  have d2: "2 ^ Suc j dvd base + 2 ^ Suc j"
    using d' by simp
  have gt: "((of_nat last_index :: 32 word) < of_nat (base + 2 ^ Suc j)) = (last_index < base + 2 ^ Suc j)"
    using word_less_of_nat [OF assms(4) small] .
  have at: "\<not> last_index < base + 2 ^ Suc j \<Longrightarrow>
      table_at tbl (of_nat (base + 2 ^ Suc j)) = Inr (tbl ! (base + 2 ^ Suc j))"
    using assms(3) small by (intro table_at_of_nat) simp_all
  have nz: "(2::32 word) ^ Suc j \<noteq> 0"
    using j by (simp add: exp_eq_zero_iff del: power_Suc)
  have left: "search tbl (of_nat last_index) v (of_nat (base + 2 ^ j)) (2 ^ j)
      = Inr (exit_of (walk tbl last_index v base j))"
    using Suc.IH [OF d'] Suc.prems(2) by simp
  have right: "search tbl (of_nat last_index) v (of_nat (base + 2 ^ Suc j + 2 ^ j)) (2 ^ j)
      = Inr (exit_of (walk tbl last_index v (base + 2 ^ Suc j) j))"
    using Suc.IH [OF d2] Suc.prems(2) by simp
  show ?case
    apply (subst search.simps)
    apply (simp only: nz if_False halve_step [OF j] w_left [OF d] w_right [OF d] gt)
    using at left right apply (simp del: power_Suc)
    done
qed


lemma walk_le:
  "base \<le> last_index \<Longrightarrow> walk tbl last_index v base k = Some n \<Longrightarrow> n \<le> last_index"
proof (induction k arbitrary: base)
  case 0
  then show ?case
    by (auto split: if_splits)
next
  case (Suc k)
  show ?case
  proof (cases "base + 2 ^ Suc k > last_index")
    case True
    then show ?thesis
      using Suc.IH [of base] Suc.prems by simp
  next
    case False
    then have "base + 2 ^ Suc k \<le> last_index"
      by simp
    then show ?thesis
      using Suc.IH [of base] Suc.IH [of "base + 2 ^ Suc k"] Suc.prems False
      by (simp split: if_splits)
  qed
qed

lemma validate_on_walk:
  assumes len: "length tbl = Suc last_index" and small: "last_index < 2 ^ 32"
    and pp: "ppow2_of (of_nat last_index) = 2 ^ k" and k: "k < 32"
    and miss: "\<not> deq v (last_correct_value st)"
  shows "validate_on tbl v st =
    (case walk tbl last_index v 0 k of
       None \<Rightarrow> Inr (True, st\<lparr>last_correct_value := v\<rparr>)
     | Some n \<Rightarrow>
         if deq v (tbl ! n) then Inr (True, st\<lparr>last_correct_value := v\<rparr>)
         else if dlt v (tbl ! n)
           then Inr (False, st\<lparr>xtal_error_low := (if n \<noteq> 0 then tbl ! (n - 1) else Finite 0),
                                xtal_error_high := tbl ! n\<rparr>)
         else Inr (False, st\<lparr>xtal_error_high := (if n < last_index then tbl ! (n + 1) else Finite 0),
                              xtal_error_low := tbl ! n\<rparr>))"
proof -
  have cnt: "(of_nat (length tbl) :: 32 word) - 1 = of_nat last_index"
    by (simp add: len)
  have "(2::nat) ^ Suc k \<le> 2 ^ 32"
    using k by (intro power_increasing) simp_all
  then have "search tbl (of_nat last_index) v (of_nat (0 + 2 ^ k)) (2 ^ k)
      = Inr (exit_of (walk tbl last_index v 0 k))"
    using len small by (intro search_walk) simp_all
  then have run: "search tbl (of_nat last_index) v (2 ^ k) (2 ^ k)
      = Inr (exit_of (walk tbl last_index v 0 k))"
    by simp
  show ?thesis
  proof (cases "walk tbl last_index v 0 k")
    case None
    then show ?thesis
      using miss run by (simp add: validate_on_def cnt pp)
  next
    case (Some n)
    then have n: "n \<le> last_index"
      using walk_le [of 0 last_index tbl v k n] by simp
    then have n32: "n < 2 ^ 32" and n1: "n + 1 \<le> 2 ^ 32"
      using small by simp_all
    have at: "table_at tbl (of_nat n) = Inr (tbl ! n)"
      using n len n32 by (intro table_at_of_nat) simp_all
    have zero: "((of_nat n :: 32 word) = 0) = (n = 0)"
    proof
      assume "(of_nat n :: 32 word) = 0"
      then have "unat (of_nat n :: 32 word) = 0"
        by simp
      then show "n = 0"
        using unat_of_nat32 [OF n32] by simp
    next
      assume "n = 0"
      then show "(of_nat n :: 32 word) = 0"
        by simp
    qed
    have lo: "n \<noteq> 0 \<Longrightarrow> table_at tbl (of_nat n - 1) = Inr (tbl ! (n - 1))"
    proof -
      assume "n \<noteq> 0"
      then have "(of_nat n :: 32 word) - 1 = of_nat (n - 1)"
        by (simp add: of_nat_diff)
      moreover have "table_at tbl (of_nat (n - 1)) = Inr (tbl ! (n - 1))"
        using n len n32 by (intro table_at_of_nat) simp_all
      ultimately show ?thesis
        by simp
    qed
    have lt: "((of_nat n :: 32 word) < of_nat last_index) = (n < last_index)"
      using word_less_of_nat [OF n32 small] .
    have hi: "n < last_index \<Longrightarrow> table_at tbl (of_nat n + 1) = Inr (tbl ! (n + 1))"
    proof -
      assume "n < last_index"
      then have "n + 1 < length tbl" "n + 1 < 2 ^ 32"
        using len small by simp_all
      then have "table_at tbl (of_nat (n + 1)) = Inr (tbl ! (n + 1))"
        by (intro table_at_of_nat)
      then show ?thesis
        by (simp add: add.commute)
    qed
    show ?thesis
      using miss run Some at zero lo lt hi by (simp add: validate_on_def cnt pp)
  qed
qed


subsection \<open>The compiled-in table\<close>

lemma known_count: "length known_xtals = Suc 315"
  by (simp add: known_xtals_def xtal_hz_def)

lemma ppow2_known: "ppow2_of (of_nat 315) = 2 ^ 8"
  by (simp add: ppow2_of_def)

lemmas validate_walk =
  validate_on_walk [of known_xtals 315 8, OF known_count _ ppow2_known, folded validate_def, simplified]


section \<open>Rounding\<close>

lemma pow2_pos: "0 < (2::rat) powi e"
  by (simp add: zero_less_power_int)

lemma pow2_Suc: "(2::rat) powi (e + 1) = 2 * 2 powi e"
  by (simp add: power_int_add)

lemma pow2_pred: "(2::rat) powi (e - 1) = 2 powi e / 2"
  by (simp add: power_int_diff)

lemma ilog2_rough:
  assumes "0 < x"
  defines "d \<equiv> bitlen (fst (quotient_of x)) - bitlen (snd (quotient_of x))"
  shows "2 powi (d - 1) < x" and "x < 2 powi (d + 1)"
proof -
  obtain p q where pq: "quotient_of x = (p, q)"
    by (cases "quotient_of x")
  then have q: "0 < q" and x: "x = of_int p / of_int q"
    using quotient_of_denom_pos quotient_of_div by blast+
  with assms(1) have p: "0 < p"
    by (simp add: zero_less_divide_iff)
  have bp: "2 ^ nat (bitlen p - 1) \<le> p" "p < 2 ^ nat (bitlen p)"
    using bitlen_bounds [OF p] by simp_all
  have bq: "2 ^ nat (bitlen q - 1) \<le> q" "q < 2 ^ nat (bitlen q)"
    using bitlen_bounds [OF q] by simp_all
  have p1: "1 \<le> bitlen p" and q1: "1 \<le> bitlen q"
    using p q bitlen_eq_zero_iff [of p] bitlen_eq_zero_iff [of q] bitlen_nonneg [of p] bitlen_nonneg [of q]
    by linarith+
  have P_lo: "(2::rat) powi (bitlen p - 1) \<le> of_int p"
  proof -
    have "(of_int (2 ^ nat (bitlen p - 1)) :: rat) \<le> of_int p"
      using bp(1) by (simp only: of_int_le_iff)
    moreover have "(2::rat) powi (bitlen p - 1) = 2 ^ nat (bitlen p - 1)"
      using p1 by (simp add: power_int_def)
    ultimately show ?thesis by simp
  qed
  have P_hi: "of_int p < (2::rat) powi (bitlen p)"
  proof -
    have "(of_int p :: rat) < of_int (2 ^ nat (bitlen p))"
      using bp(2) by (simp only: of_int_less_iff)
    moreover have "(2::rat) powi (bitlen p) = 2 ^ nat (bitlen p)"
      using p1 by (simp add: power_int_def)
    ultimately show ?thesis by simp
  qed
  have Q_lo: "(2::rat) powi (bitlen q - 1) \<le> of_int q"
  proof -
    have "(of_int (2 ^ nat (bitlen q - 1)) :: rat) \<le> of_int q"
      using bq(1) by (simp only: of_int_le_iff)
    moreover have "(2::rat) powi (bitlen q - 1) = 2 ^ nat (bitlen q - 1)"
      using q1 by (simp add: power_int_def)
    ultimately show ?thesis by simp
  qed
  have Q_hi: "of_int q < (2::rat) powi (bitlen q)"
  proof -
    have "(of_int q :: rat) < of_int (2 ^ nat (bitlen q))"
      using bq(2) by (simp only: of_int_less_iff)
    moreover have "(2::rat) powi (bitlen q) = 2 ^ nat (bitlen q)"
      using q1 by (simp add: power_int_def)
    ultimately show ?thesis by simp
  qed
  have d: "d = bitlen p - bitlen q"
    by (simp add: d_def pq)
  have qpos: "(0::rat) < of_int q"
    using q by simp
  have "(2::rat) powi (d - 1) * of_int q < 2 powi (d - 1) * 2 powi (bitlen q)"
    using Q_hi pow2_pos by (simp add: mult_strict_left_mono)
  also have "\<dots> = 2 powi (bitlen p - 1)"
    by (simp add: d flip: power_int_add)
  also have "\<dots> \<le> of_int p"
    by (rule P_lo)
  finally show "2 powi (d - 1) < x"
    using qpos by (simp add: x pos_less_divide_eq)
  have "of_int p < (2::rat) powi (bitlen p)"
    by (rule P_hi)
  also have "\<dots> = 2 powi (d + 1) * 2 powi (bitlen q - 1)"
    by (simp add: d flip: power_int_add)
  also have "\<dots> \<le> 2 powi (d + 1) * (of_int q :: rat)"
    using Q_lo pow2_pos by (simp add: mult_left_mono)
  finally show "x < 2 powi (d + 1)"
    using qpos by (simp add: x pos_divide_less_eq)
qed

lemma ilog2_bounds:
  assumes "0 < x"
  shows "2 powi (ilog2 x) \<le> x" and "x < 2 powi (ilog2 x + 1)"
proof -
  let ?d = "bitlen (fst (quotient_of x)) - bitlen (snd (quotient_of x))"
  have e: "ilog2 x = (if 2 powi ?d \<le> x then ?d else ?d - 1)"
    by (simp add: ilog2_def Let_def split_beta)
  show "2 powi (ilog2 x) \<le> x"
    using ilog2_rough(1) [OF assms] by (simp add: e)
  show "x < 2 powi (ilog2 x + 1)"
    using ilog2_rough(2) [OF assms] by (auto simp: e)
qed

lemma ilog2_unique:
  assumes "2 powi e \<le> x" and "x < 2 powi (e + 1)"
  shows "ilog2 x = e"
proof -
  have x: "0 < x"
    using assms(1) pow2_pos [of e] by linarith
  have "(2::rat) powi (ilog2 x) < 2 powi (e + 1)"
    using ilog2_bounds(1) [OF x] assms(2) by linarith
  then have "ilog2 x < e + 1"
    by (metis linorder_not_less one_le_numeral power_int_increasing)
  moreover have "(2::rat) powi e < 2 powi (ilog2 x + 1)"
    using ilog2_bounds(2) [OF x] assms(1) by linarith
  then have "e < ilog2 x + 1"
    by (metis linorder_not_less one_le_numeral power_int_increasing)
  ultimately show ?thesis
    by simp
qed

lemma ilog2_ge: "2 powi e \<le> x \<Longrightarrow> e \<le> ilog2 x"
proof -
  assume a: "2 powi e \<le> x"
  then have x: "0 < x"
    using pow2_pos [of e] by linarith
  have "(2::rat) powi e < 2 powi (ilog2 x + 1)"
    using ilog2_bounds(2) [OF x] a by linarith
  then have "e < ilog2 x + 1"
    by (metis linorder_not_less one_le_numeral power_int_increasing)
  then show ?thesis by simp
qed

lemma ilog2_less: "0 < x \<Longrightarrow> x < 2 powi e \<Longrightarrow> ilog2 x < e"
proof -
  assume x: "0 < x" and a: "x < 2 powi e"
  have "(2::rat) powi (ilog2 x) < 2 powi e"
    using ilog2_bounds(1) [OF x] a by linarith
  then show ?thesis
    by (metis linorder_not_less one_le_numeral power_int_increasing)
qed


lemma round_even_of_int: "round_even (of_int n) = n"
  by (simp add: round_even_def)

lemma round_even_ge: "of_int n \<le> y \<Longrightarrow> n \<le> round_even y"
proof -
  assume "of_int n \<le> y"
  then have "n \<le> \<lfloor>y\<rfloor>"
    by (simp add: le_floor_iff)
  then show ?thesis
    by (auto simp: round_even_def Let_def)
qed

lemma round_even_gt_half: "of_int n + 1 / 2 < y \<Longrightarrow> n + 1 \<le> round_even y"
proof -
  assume a: "of_int n + 1 / 2 < y"
  then have f: "n \<le> \<lfloor>y\<rfloor>"
    by (simp add: le_floor_iff)
  show ?thesis
  proof (cases "n = \<lfloor>y\<rfloor>")
    case True
    then have "1 / 2 < y - of_int \<lfloor>y\<rfloor>"
      using a by simp
    then show ?thesis
      using True by (simp add: round_even_def Let_def)
  next
    case False
    then have "n + 1 \<le> \<lfloor>y\<rfloor>"
      using f by simp
    then show ?thesis
      by (auto simp: round_even_def Let_def)
  qed
qed

lemma round_mag_nonneg: "0 < x \<Longrightarrow> 0 \<le> round_mag x"
proof -
  assume x: "0 < x"
  let ?ulp = "(2::rat) powi (max (ilog2 x) (- 1022) - 52)"
  have "of_int 0 \<le> x / ?ulp"
    using x pow2_pos by (simp add: less_imp_le)
  then have "0 \<le> round_even (x / ?ulp)"
    by (rule round_even_ge)
  then show ?thesis
    using pow2_pos by (simp add: round_mag_def Let_def less_imp_le)
qed

lemma round_mag_exact:
  assumes x: "0 < x" and form: "x = of_int k * 2 powi a" and k: "k < 2 ^ 53" and a: "- 1074 \<le> a"
  shows "round_mag x = x"
proof -
  let ?e = "max (ilog2 x) (- 1022)"
  have "x < 2 ^ 53 * 2 powi a"
  proof -
    have "(of_int k :: rat) < of_int (2 ^ 53)"
      using k by (simp only: of_int_less_iff)
    then show ?thesis
      using pow2_pos [of a] by (simp add: form)
  qed
  also have "\<dots> = 2 powi (53 + a)"
    by (simp add: power_int_add)
  finally have "ilog2 x < 53 + a"
    using x by (rule ilog2_less [rotated])
  then have e: "0 \<le> a - (?e - 52)"
    using a by simp
  have "x / 2 powi (?e - 52) = of_int k * 2 powi (a - (?e - 52))"
    by (simp add: form power_int_diff)
  also have "\<dots> = of_int (k * 2 ^ nat (a - (?e - 52)))"
    using e by (simp add: power_int_def)
  finally have "round_even (x / 2 powi (?e - 52)) = k * 2 ^ nat (a - (?e - 52))"
    by (simp only: round_even_of_int)
  then have "round_mag x = of_int (k * 2 ^ nat (a - (?e - 52))) * 2 powi (?e - 52)"
    by (simp add: round_mag_def Let_def)
  also have "\<dots> = of_int k * (2 powi (a - (?e - 52)) * 2 powi (?e - 52))"
    using e by (simp add: power_int_def)
  also have "\<dots> = x"
    by (simp add: form flip: power_int_add)
  finally show ?thesis .
qed

lemma round_mag_ge:
  assumes lo: "2 powi e \<le> x" and e: "- 1022 \<le> e"
  shows "2 powi e \<le> round_mag x"
proof -
  have x: "0 < x"
    using lo pow2_pos [of e] by linarith
  let ?e = "ilog2 x"
  have ee: "e \<le> ?e"
    using lo by (rule ilog2_ge)
  then have m: "max ?e (- 1022) = ?e"
    using e by simp
  have "(of_int (2 ^ 52) :: rat) = 2 powi ?e / 2 powi (?e - 52)"
    by (simp add: power_int_diff)
  also have "\<dots> \<le> x / 2 powi (?e - 52)"
    using ilog2_bounds(1) [OF x] pow2_pos by (simp add: divide_right_mono less_imp_le)
  finally have "2 ^ 52 \<le> round_even (x / 2 powi (?e - 52))"
    by (rule round_even_ge)
  then have "(of_int (2 ^ 52) :: rat) \<le> of_int (round_even (x / 2 powi (?e - 52)))"
    by (simp only: of_int_le_iff)
  then have "of_int (2 ^ 52) * 2 powi (?e - 52) \<le> round_mag x"
    using pow2_pos [of "?e - 52"] by (simp add: round_mag_def Let_def m mult_right_mono less_imp_le)
  moreover have "of_int (2 ^ 52) * 2 powi (?e - 52) = (2::rat) powi ?e"
    by (simp add: power_int_diff)
  moreover have "(2::rat) powi e \<le> 2 powi ?e"
    using ee by (simp add: power_int_increasing)
  ultimately show ?thesis
    by linarith
qed


lemma rnd_pos_cases:
  assumes "0 < x"
  shows "rnd x = (if 2 ^ 1024 \<le> round_mag x then PosInf else Finite (round_mag x))"
  using assms by (simp add: rnd_def Let_def)

lemma rnd_neg_cases:
  assumes "x < 0"
  shows "rnd x = (if 2 ^ 1024 \<le> round_mag (- x) then NegInf
                  else if round_mag (- x) = 0 then NegZero else Finite (- round_mag (- x)))"
  using assms by (simp add: rnd_def Let_def)

lemma dabs_rnd: "dabs (rnd y) = rnd \<bar>y\<bar>"
proof (cases y "0::rat" rule: linorder_cases)
  case less
  then have "0 \<le> round_mag (- y)"
    using round_mag_nonneg [of "- y"] by simp
  then show ?thesis
    using less by (simp add: rnd_neg_cases rnd_pos_cases)
next
  case equal
  then show ?thesis
    by (simp add: rnd_def)
next
  case greater
  then have "0 \<le> round_mag y"
    using round_mag_nonneg by simp
  then show ?thesis
    using greater by (simp add: rnd_pos_cases)
qed

lemma rnd_exact_pos:
  assumes "0 < x" and "x = of_int k * 2 powi a" and "k < 2 ^ 53" and "- 1074 \<le> a"
    and "x < 2 ^ 1024"
  shows "rnd x = Finite x"
proof -
  have "round_mag x = x"
    by (rule round_mag_exact [OF assms(1-4)])
  then show ?thesis
    using assms(1,5) by (simp add: rnd_pos_cases)
qed

lemma rnd_exact:
  assumes form: "x = of_int k * 2 powi a" and k: "\<bar>k\<bar> < 2 ^ 53" and a: "- 1074 \<le> a"
    and x: "\<bar>x\<bar> < 2 ^ 1024"
  shows "rnd x = Finite x"
proof (cases x "0::rat" rule: linorder_cases)
  case less
  have "- x = of_int (- k) * 2 powi a"
    by (simp add: form)
  moreover have "- k < 2 ^ 53"
    using k by simp
  moreover have "0 < - x"
    using less by simp
  ultimately have "round_mag (- x) = - x"
    using a by (intro round_mag_exact)
  then show ?thesis
    using less x by (simp add: rnd_neg_cases)
next
  case equal
  then show ?thesis
    by (simp add: rnd_def)
next
  case greater
  moreover have "k < 2 ^ 53"
    using k by simp
  ultimately show ?thesis
    using form a x by (intro rnd_exact_pos) simp_all
qed

lemma rnd_of_int: "\<bar>n\<bar> < 2 ^ 53 \<Longrightarrow> rnd (of_int n) = Finite (of_int n)"
proof -
  assume n: "\<bar>n\<bar> < 2 ^ 53"
  have "\<bar>of_int n :: rat\<bar> = of_int \<bar>n\<bar>"
    by simp
  also have "\<dots> < of_int (2 ^ 53)"
    using n by (simp only: of_int_less_iff)
  also have "\<dots> < 2 ^ 1024"
    by simp
  finally show ?thesis
    using n by (intro rnd_exact [of _ n 0]) simp_all
qed

text \<open>Rounding a number of the normal range never goes below the power of two under it.\<close>

lemma rnd_ge_pow2:
  assumes "2 powi e \<le> x" and "- 1022 \<le> e"
  shows "rnd x = PosInf \<or> (\<exists>r. rnd x = Finite r \<and> 2 powi e \<le> r)"
proof -
  have x: "0 < x"
    using assms(1) pow2_pos [of e] by linarith
  show ?thesis
    using round_mag_ge [OF assms] by (simp add: rnd_pos_cases [OF x])
qed

lemma two_eps: "dmul (Finite 2) DBL_EPSILON = Finite (1 / 2 ^ 51)"
proof -
  have "rnd (1 / 2 ^ 51) = Finite (1 / 2 ^ 51)"
    by (rule rnd_exact [of _ 1 "- 51"]) (simp_all add: power_int_minus_divide)
  then show ?thesis
    by (simp add: dmul_def DBL_EPSILON_def)
qed

text \<open>The largest argument that still rounds to at most \<open>2 * DBL_EPSILON\<close> is the midpoint
  between it and the next double, which is a tie that goes to the even neighbour.\<close>

lemma rnd_le_two_eps:
  assumes x: "0 < x" and le: "dle (rnd x) (Finite (1 / 2 ^ 51))"
  shows "x \<le> (1 / 2 ^ 51) * (1 + 1 / 2 ^ 53)"
proof (rule ccontr)
  assume "\<not> x \<le> (1 / 2 ^ 51) * (1 + 1 / 2 ^ 53)"
  then have gt: "(1 / 2 ^ 51) * (1 + 1 / 2 ^ 53) < x"
    by simp
  show False
  proof (cases "2 powi (- 50) \<le> x")
    case True
    then have "rnd x = PosInf \<or> (\<exists>r. rnd x = Finite r \<and> 2 powi (- 50) \<le> r)"
      by (rule rnd_ge_pow2) simp
    then show False
      using le by (auto simp: dle_def power_int_minus_divide)
  next
    case False
    then have hi: "x < 2 powi (- 51 + 1)"
      by simp
    have lo: "2 powi (- 51) \<le> x"
      using gt by (simp add: power_int_minus_divide)
    have e: "ilog2 x = - 51"
      using lo hi by (rule ilog2_unique)
    have "of_int (2 ^ 52) + 1 / 2 < x / 2 powi (- 103)"
      using gt by (simp add: power_int_minus_divide)
    then have "2 ^ 52 + 1 \<le> round_even (x / 2 powi (- 103))"
      by (rule round_even_gt_half)
    then have "(of_int (2 ^ 52 + 1) :: rat) \<le> of_int (round_even (x / 2 powi (- 103)))"
      by (simp only: of_int_le_iff)
    then have "of_int (2 ^ 52 + 1) * 2 powi (- 103) \<le> round_mag x"
      using pow2_pos [of "- 103"] by (simp add: round_mag_def Let_def e mult_right_mono less_imp_le)
    then have "1 / 2 ^ 51 < round_mag x"
      by (simp add: power_int_minus_divide)
    then show False
      using le by (simp add: rnd_pos_cases [OF x] dle_def split: if_splits)
  qed
qed

text \<open>Every positive double is an integer below \<open>2 ^ 53\<close> times a power of two that is at
  least the smallest subnormal number.\<close>

lemma binary64_form:
  assumes b: "is_binary64 (Finite x)" and x: "0 < x"
  shows "\<exists>m. x = of_int m * 2 powi (max (ilog2 x) (- 1022) - 52) \<and> 0 < m \<and> m < 2 ^ 53"
    and "x < 2 ^ 1024"
proof -
  define a where "a = max (ilog2 x) (- 1022) - 52"
  define m where "m = round_even (x / 2 powi a)"
  from b have r: "round_mag x = x" and big: "\<not> 2 ^ 1024 \<le> round_mag x"
    using x by (simp_all add: rnd_pos_cases split: if_splits)
  then show "x < 2 ^ 1024"
    by simp
  have form: "x = of_int m * 2 powi a"
    using r by (simp add: round_mag_def Let_def a_def m_def)
  have "0 < of_int m * (2::rat) powi a"
    using form x by simp
  then have m: "0 < m"
    using pow2_pos [of a] by (simp add: zero_less_mult_iff)
  have le: "ilog2 x + 1 \<le> a + 53"
    by (simp add: a_def)
  have "of_int m * 2 powi a = x"
    by (simp only: form)
  also have "x < 2 powi (ilog2 x + 1)"
    using ilog2_bounds(2) [OF x] .
  also have "\<dots> \<le> 2 powi (a + 53)"
    using le by (intro power_int_increasing) simp_all
  also have "\<dots> = of_int (2 ^ 53) * 2 powi a"
    by (simp add: power_int_add)
  finally have "of_int m * 2 powi a < of_int (2 ^ 53) * (2::rat) powi a" .
  then have "(of_int m :: rat) < of_int (2 ^ 53)"
    using pow2_pos [of a] by (simp only: mult_less_cancel_right_pos)
  then have "m < 2 ^ 53"
    by (simp only: of_int_less_iff)
  with form m show "\<exists>m. x = of_int m * 2 powi (max (ilog2 x) (- 1022) - 52) \<and> 0 < m \<and> m < 2 ^ 53"
    unfolding a_def by blast
qed

section \<open>The tolerance test\<close>

lemma rnd_not_NaN: "rnd x \<noteq> NaN"
  by (simp add: rnd_def Let_def)

lemma within_tolerance_Finite:
  "within_tolerance (Finite x) (Finite s) =
     dle (dabs (ddiv (if x = s then Finite 0 else rnd (x - s)) (Finite x))) (Finite (1 / 2 ^ 51))"
  by (simp add: within_tolerance_def two_eps)

lemma within_tolerance_self: "q \<noteq> 0 \<Longrightarrow> within_tolerance (Finite q) (Finite q)"
  by (simp add: within_tolerance_Finite ddiv_def signed_zero_def dle_def)

lemma within_tolerance_finite:
  assumes "within_tolerance v (Finite s)" and "s \<noteq> 0"
  shows "\<exists>x. v = Finite x \<and> x \<noteq> 0"
proof (cases v)
  case (Finite x)
  show ?thesis
  proof (cases "x = 0")
    case True
    show ?thesis
      using assms Finite True rnd_not_NaN [of "- s"]
      by (cases "rnd (- s)")
        (auto simp: within_tolerance_Finite ddiv_def signed_inf_def dle_def split: if_splits)
  next
    case False
    then show ?thesis
      using Finite by simp
  qed
next
  case NegZero
  then show ?thesis
    using assms rnd_not_NaN [of "- s"]
    by (cases "rnd (- s)")
      (auto simp: within_tolerance_def two_eps ddiv_def signed_inf_def dle_def split: if_splits)
qed (use assms in \<open>simp_all add: within_tolerance_def two_eps ddiv_def dle_def\<close>)


text \<open>A quotient of at least a quarter is never within tolerance.\<close>

lemma rnd_quarter:
  assumes "1 / 4 \<le> q"
  shows "\<not> dle (rnd q) (Finite (1 / 2 ^ 51))"
proof -
  have "2 powi (- 2) \<le> q"
    using assms by (simp add: power_int_minus_divide)
  then have "rnd q = PosInf \<or> (\<exists>r. rnd q = Finite r \<and> 2 powi (- 2) \<le> r)"
    by (rule rnd_ge_pow2) simp
  then show ?thesis
    by (auto simp: dle_def power_int_minus_divide)
qed

text \<open>When the candidate is far from the entry, the rounded difference is still more than
  a quarter of the candidate, and the test fails.\<close>

lemma within_tolerance_far:
  assumes x: "x \<noteq> 0" and w1: "\<bar>x\<bar> / 2 \<le> \<bar>x - s\<bar>" and w2: "1 / 2 \<le> \<bar>x - s\<bar>"
  shows "\<not> within_tolerance (Finite x) (Finite s)"
proof -
  define w where "w = \<bar>x - s\<bar>"
  have w: "0 < w"
    using w2 unfolding w_def by linarith
  have ne: "x \<noteq> s"
    using w by (auto simp: w_def)
  have "2 powi (- 1) \<le> w"
    using w2 by (simp add: w_def power_int_minus_divide)
  then have e: "- 1 \<le> ilog2 w"
    by (rule ilog2_ge)
  have half: "w / 2 < 2 powi (ilog2 w)"
    using ilog2_bounds(2) [OF w] by (simp add: pow2_Suc)
  have "rnd w = PosInf \<or> (\<exists>r. rnd w = Finite r \<and> 2 powi (ilog2 w) \<le> r)"
    using ilog2_bounds(1) [OF w] e by (intro rnd_ge_pow2) simp_all
  then have abs_d: "dabs (rnd (x - s)) = PosInf \<or> (\<exists>r. dabs (rnd (x - s)) = Finite r \<and> \<bar>x\<bar> / 4 < r)"
    using half w1 by (auto simp: dabs_rnd w_def)
  show ?thesis
  proof (cases "rnd (x - s)")
    case (Finite d)
    with abs_d have d: "\<bar>x\<bar> / 4 < \<bar>d\<bar>"
      by simp
    then have d0: "d \<noteq> 0"
      by auto
    have "1 / 4 \<le> \<bar>d / x\<bar>"
      using d x by (simp add: field_simps)
    then have "\<not> dle (rnd \<bar>d / x\<bar>) (Finite (1 / 2 ^ 51))"
      by (rule rnd_quarter)
    then show ?thesis
      using Finite d0 x ne by (simp add: within_tolerance_Finite ddiv_def dabs_rnd)
  next
    case NegZero
    then show ?thesis
      using abs_d by simp
  next
    case PosInf
    then show ?thesis
      using ne by (simp add: within_tolerance_Finite ddiv_def signed_inf_def dle_def)
  next
    case NegInf
    then show ?thesis
      using ne by (simp add: within_tolerance_Finite ddiv_def signed_inf_def dle_def)
  next
    case NaN
    then show ?thesis
      using rnd_not_NaN by simp
  qed
qed


text \<open>When the entry is at most twice the candidate, both are multiples of the candidate's
  unit in the last place, the subtraction is exact, and the quotient is a ratio of
  integers \<open>K / m\<close> with \<open>m < 2 ^ 53\<close>; rounding it cannot bring it down to \<open>2 * DBL_EPSILON\<close>
  unless it is there already.\<close>

lemma within_tolerance_close:
  assumes b: "is_binary64 (Finite x)" and x: "0 < x" and x53: "x < 2 ^ 53"
    and n: "0 < n" and n2: "of_int n \<le> 2 * x"
    and wt: "within_tolerance (Finite x) (Finite (of_int n))"
  shows "\<bar>x - of_int n\<bar> / x \<le> 1 / 2 ^ 51"
proof (cases "x = of_int n")
  case True
  then show ?thesis
    by simp
next
  case ne: False
  define a where "a = max (ilog2 x) (- 1022) - 52"
  obtain m where form: "x = of_int m * 2 powi a" and m: "0 < m" "m < 2 ^ 53"
    using binary64_form(1) [OF b x] unfolding a_def by blast
  have big: "x < 2 ^ 1024"
    using binary64_form(2) [OF b x] .
  have "x < 2 powi 53"
    using x53 by simp
  then have "ilog2 x < 53"
    using x by (rule ilog2_less [rotated])
  then have a0: "a \<le> 0" and a1: "- 1074 \<le> a"
    by (simp_all add: a_def)
  define N where "N = n * 2 ^ nat (- a)"
  have pa: "(2::rat) powi a * 2 ^ nat (- a) = 1"
    using a0 by (simp add: power_int_def flip: power_mult_distrib)
  have Nform: "of_int n = of_int N * (2::rat) powi a"
    using pa by (simp add: N_def mult.assoc mult.commute)
  have N0: "0 < N"
    using n by (simp add: N_def)
  have "of_int N * (2::rat) powi a \<le> of_int (2 * m) * 2 powi a"
    using n2 by (simp add: Nform [symmetric] form)
  then have "(of_int N :: rat) \<le> of_int (2 * m)"
    using pow2_pos [of a] by (simp only: mult_le_cancel_right_pos)
  then have N2: "N \<le> 2 * m"
    by (simp only: of_int_le_iff)
  define K where "K = \<bar>m - N\<bar>"
  have K: "K \<le> m"
    using N0 N2 by (simp add: K_def)
  have diff: "x - of_int n = of_int (m - N) * 2 powi a"
    by (simp add: form Nform algebra_simps)
  have "\<bar>x - of_int n\<bar> \<le> x"
    using x n n2 by (simp add: abs_le_iff)
  then have "\<bar>x - of_int n\<bar> < 2 ^ 1024"
    using big by linarith
  moreover have "\<bar>m - N\<bar> < 2 ^ 53"
    using K m by (simp add: K_def)
  ultimately have exact: "rnd (x - of_int n) = Finite (x - of_int n)"
    using diff a1 by (intro rnd_exact)
  have q: "\<bar>x - of_int n\<bar> / x = of_int K / of_int m"
  proof -
    have "\<bar>x - of_int n\<bar> = of_int K * 2 powi a"
      using pow2_pos [of a] by (simp add: diff abs_mult K_def)
    then have "\<bar>x - of_int n\<bar> / x = (of_int K * 2 powi a) / x"
      by simp
    also have "\<dots> = (of_int K * 2 powi a) / (of_int m * 2 powi a)"
      using form by simp
    also have "\<dots> = of_int K / of_int m"
      using pow2_pos [of a] by simp
    finally show ?thesis .
  qed
  have K0: "0 < K"
    using ne diff by (auto simp: K_def)
  have mpos: "(0::rat) < of_int m"
    using m(1) by simp
  have qpos: "(0::rat) < of_int K / of_int m"
    using K0 mpos by simp
  have "dle (rnd (of_int K / of_int m)) (Finite (1 / 2 ^ 51))"
    using wt ne x exact by (simp add: within_tolerance_Finite ddiv_def dabs_rnd q)
  then have "of_int K / of_int m \<le> (1 / 2 ^ 51) * (1 + 1 / 2 ^ 53 :: rat)"
    using qpos by (intro rnd_le_two_eps)
  then have "(of_int K :: rat) \<le> (1 / 2 ^ 51) * (1 + 1 / 2 ^ 53) * of_int m"
    using mpos by (simp only: pos_divide_le_eq)
  then have "(of_int (K * 2 ^ 104) :: rat) \<le> of_int (m * (2 ^ 53 + 1))"
    by (simp add: field_simps)
  then have "K * 2 ^ 104 \<le> m * (2 ^ 53 + 1)"
    by (simp only: of_int_le_iff)
  then have "K * 2 ^ 51 \<le> m"
    using m(2) by simp
  then have "(of_int (K * 2 ^ 51) :: rat) \<le> of_int m"
    by (simp only: of_int_le_iff)
  then have "of_int K / of_int m \<le> (1 / 2 ^ 51 :: rat)"
    using mpos by (simp add: field_simps)
  then show ?thesis
    by (simp only: q)
qed

lemma within_tolerance_exact:
  assumes b: "is_binary64 v" and n: "0 < n" "n < 2 ^ 52"
    and wt: "within_tolerance v (Finite (of_int n))"
  shows "\<exists>x. v = Finite x \<and> 0 < x \<and> spec_within_tolerance x (of_int n)"
proof -
  have "(of_int n :: rat) \<noteq> 0"
    using n by simp
  with wt obtain x where v: "v = Finite x" and x0: "x \<noteq> 0"
    using within_tolerance_finite by blast
  have n1: "(1::rat) \<le> of_int n"
    using n(1) by (simp add: int_one_le_iff_zero_less)
  have n52: "(of_int n :: rat) < 2 ^ 52"
  proof -
    have "(of_int n :: rat) < of_int (2 ^ 52)"
      using n(2) by (simp only: of_int_less_iff)
    then show ?thesis by simp
  qed
  have near: "0 < x \<and> x < 2 ^ 53 \<and> of_int n \<le> 2 * x"
  proof (rule ccontr)
    assume far: "\<not> (0 < x \<and> x < 2 ^ 53 \<and> of_int n \<le> 2 * x)"
    have "\<bar>x\<bar> / 2 \<le> \<bar>x - of_int n\<bar> \<and> 1 / 2 \<le> \<bar>x - of_int n\<bar>"
    proof (cases "x < 0")
      case True
      then show ?thesis
        using n1 by linarith
    next
      case pos: False
      show ?thesis
      proof (cases "of_int n \<le> 2 * x")
        case True
        then have "2 ^ 53 \<le> x"
          using far pos x0 by simp
        moreover have "(2::rat) ^ 53 = 2 * 2 ^ 52" "(1::rat) \<le> 2 ^ 52"
          by simp_all
        ultimately show ?thesis
          using n52 n1 by linarith
      next
        case False
        then show ?thesis
          using pos n1 by linarith
      qed
    qed
    then have "\<not> within_tolerance (Finite x) (Finite (of_int n))"
      using x0 by (intro within_tolerance_far) simp_all
    then show False
      using wt v by simp
  qed
  then have "\<bar>x - of_int n\<bar> / x \<le> 1 / 2 ^ 51"
    using b wt n(1) unfolding v by (intro within_tolerance_close) simp_all
  then show ?thesis
    using v near by (simp add: spec_within_tolerance_def)
qed

subsection \<open>What the loop finds\<close>

lemma walk_None:
  "walk tbl last_index v base k = None \<Longrightarrow>
     \<exists>j. 1 \<le> j \<and> j \<le> last_index \<and> within_tolerance v (tbl ! j)"
proof (induction k arbitrary: base)
  case 0
  then show ?case
    by (auto split: if_splits intro!: exI [of _ "base + 1"])
next
  case (Suc k)
  show ?case
  proof (cases "base + 2 ^ Suc k > last_index")
    case True
    then show ?thesis
      using Suc by simp
  next
    case False
    show ?thesis
    proof (cases "within_tolerance v (tbl ! (base + 2 ^ Suc k))")
      case True
      moreover have "1 \<le> base + (2::nat) ^ Suc k"
        by (simp add: Suc_le_eq)
      ultimately show ?thesis
        using False by (intro exI [of _ "base + 2 ^ Suc k"]) simp
    next
      case miss: False
      then show ?thesis
        using False Suc.IH [of base] Suc.IH [of "base + 2 ^ Suc k"] Suc.prems
        by (simp split: if_splits)
    qed
  qed
qed

text \<open>The loop on a candidate that no probed entry matches within tolerance, and that is
  greater than exactly the entries up to index \<open>i\<close>, ends in \<open>slot = i\<close>.\<close>

lemma walk_lands:
  assumes miss: "\<And>j. 1 \<le> j \<Longrightarrow> j \<le> last_index \<Longrightarrow> \<not> within_tolerance v (tbl ! j)"
    and gt: "\<And>j. 1 \<le> j \<Longrightarrow> j \<le> last_index \<Longrightarrow> dgt v (tbl ! j) = (j \<le> i)"
    and i: "i \<le> last_index"
  shows "base \<le> i \<Longrightarrow> i < base + 2 ^ Suc k \<Longrightarrow> walk tbl last_index v base k = Some i"
proof (induction k arbitrary: base)
  case 0
  show ?case
  proof (cases "base + 1 > last_index")
    case True
    then show ?thesis
      using 0 i by simp
  next
    case False
    then show ?thesis
      using 0 miss [of "base + 1"] gt [of "base + 1"] by auto
  qed
next
  case (Suc k)
  show ?case
  proof (cases "base + 2 ^ Suc k > last_index")
    case True
    then have "i < base + 2 ^ Suc k"
      using i by linarith
    then show ?thesis
      using True Suc.IH [of base] Suc.prems(1) by simp
  next
    case False
    then have j: "1 \<le> base + (2::nat) ^ Suc k" "base + 2 ^ Suc k \<le> last_index"
      by (simp_all add: Suc_le_eq)
    show ?thesis
    proof (cases "base + 2 ^ Suc k \<le> i")
      case True
      moreover have "i < base + 2 ^ Suc k + 2 ^ Suc k"
        using Suc.prems(2) by simp
      ultimately show ?thesis
        using False miss [OF j] gt [OF j] Suc.IH [of "base + 2 ^ Suc k"] by simp
    next
      case right: False
      then show ?thesis
        using False miss [OF j] gt [OF j] Suc.IH [of base] Suc.prems(1) by simp
    qed
  qed
qed

text \<open>The loop on a candidate that is the entry at index \<open>t\<close> of an ascending table either
  returns true or ends in \<open>slot = t\<close>.\<close>

lemma walk_finds:
  assumes self: "within_tolerance v (tbl ! t)"
    and gt: "\<And>j. j \<le> last_index \<Longrightarrow> j \<noteq> t \<Longrightarrow> dgt v (tbl ! j) = (j < t)"
    and t: "t \<le> last_index"
  shows "base \<le> t \<Longrightarrow> t < base + 2 ^ Suc k \<Longrightarrow>
    walk tbl last_index v base k = None \<or> walk tbl last_index v base k = Some t"
proof (induction k arbitrary: base)
  case 0
  show ?case
  proof (cases "base + 1 > last_index")
    case True
    then show ?thesis
      using 0 t by simp
  next
    case False
    then show ?thesis
      using 0 self gt [of "base + 1"] by (cases "base + 1 = t") auto
  qed
next
  case (Suc k)
  show ?case
  proof (cases "base + 2 ^ Suc k > last_index")
    case True
    then have "t < base + 2 ^ Suc k"
      using t by linarith
    then show ?thesis
      using True Suc.IH [of base] Suc.prems(1) by simp
  next
    case False
    then have j: "base + 2 ^ Suc k \<le> last_index"
      by simp
    show ?thesis
    proof (cases "base + 2 ^ Suc k" t rule: linorder_cases)
      case less
      moreover have "t < base + 2 ^ Suc k + 2 ^ Suc k"
        using Suc.prems(2) by simp
      ultimately show ?thesis
        using False gt [OF j] Suc.IH [of "base + 2 ^ Suc k"] by simp
    next
      case equal
      then show ?thesis
        using False self by simp
    next
      case greater
      then show ?thesis
        using False gt [OF j] Suc.IH [of base] Suc.prems(1) by simp
    qed
  qed
qed

subsection \<open>The entries of the compiled-in table\<close>

lemma hz_length: "length xtal_hz = 316"
  by (simp add: xtal_hz_def)

lemma hz_sorted: "sorted_wrt (<) xtal_hz"
proof -
  have "successively (<) xtal_hz"
    by (simp add: xtal_hz_def)
  then show ?thesis
    by (simp add: successively_conv_sorted_wrt)
qed

lemma hz_range: "s \<in> set xtal_hz \<Longrightarrow> 0 < s \<and> s < 2 ^ 52"
proof -
  have "list_all (\<lambda>s. 0 < s \<and> s < 2 ^ 52) xtal_hz"
    by (simp add: xtal_hz_def)
  then show "s \<in> set xtal_hz \<Longrightarrow> 0 < s \<and> s < 2 ^ 52"
    by (simp add: list_all_iff)
qed

lemma hz_less: "i < j \<Longrightarrow> j < 316 \<Longrightarrow> xtal_hz ! i < xtal_hz ! j"
  using sorted_wrt_nth_less [OF hz_sorted, of i j] by (simp add: hz_length)

lemma hz_less_iff: "i < 316 \<Longrightarrow> j < 316 \<Longrightarrow> (xtal_hz ! i < xtal_hz ! j) = (i < j)"
  using hz_less [of i j] hz_less [of j i] by (cases i j rule: linorder_cases) auto

lemma known_nth: "i < 316 \<Longrightarrow> known_xtals ! i = Finite (of_int (xtal_hz ! i))"
  by (simp add: known_xtals_def hz_length)

lemma hz_nth_range: "i < 316 \<Longrightarrow> 0 < xtal_hz ! i \<and> xtal_hz ! i < 2 ^ 52"
  by (rule hz_range) (simp add: hz_length)

section \<open>Lemmas about \<open>XTAL::validate(double)\<close>\<close>

lemma cache_hit: "deq v (last_correct_value st) \<Longrightarrow> validate_on tbl v st = Inr (True, st)"
  by (simp add: validate_on_def)

lemma validate_entry:
  assumes t: "t < 316" and miss: "\<not> deq (known_xtals ! t) (last_correct_value st)"
  shows "validate (known_xtals ! t) st = Inr (True, st\<lparr>last_correct_value := known_xtals ! t\<rparr>)"
proof -
  define v where "v = known_xtals ! t"
  have v: "v = Finite (of_int (xtal_hz ! t))"
    using t by (simp add: v_def known_nth)
  have nz: "(of_int (xtal_hz ! t) :: rat) \<noteq> 0"
    using hz_nth_range [OF t] by simp
  have self: "within_tolerance v (known_xtals ! t)"
    using nz by (simp add: v known_nth [OF t] within_tolerance_self)
  have gt: "dgt v (known_xtals ! j) = (j < t)" if "j \<le> 315" "j \<noteq> t" for j
    using that t hz_less_iff [of j t] by (simp add: v known_nth dgt_def)
  have "walk known_xtals 315 v 0 8 = None \<or> walk known_xtals 315 v 0 8 = Some t"
    using self gt t by (intro walk_finds) simp_all
  moreover have "deq v (known_xtals ! t)"
    by (simp add: v known_nth [OF t])
  moreover have "\<not> deq v (last_correct_value st)"
    using miss by (simp add: v_def)
  ultimately have "validate v st = Inr (True, st\<lparr>last_correct_value := v\<rparr>)"
    by (auto simp: validate_walk)
  then show ?thesis
    by (simp only: v_def)
qed

lemma entry_spec_close:
  assumes "is_binary64 v" and "j < 316" and "within_tolerance v (known_xtals ! j)"
  shows "\<exists>x. v = Finite x \<and> 0 < x \<and> spec_within_tolerance x (of_int (xtal_hz ! j))"
  using assms hz_nth_range [of j] by (intro within_tolerance_exact) (simp_all add: known_nth)

lemma deq_entry:
  assumes "j < 316" and "deq v (known_xtals ! j)"
  shows "v = known_xtals ! j"
  using assms hz_nth_range [of j] by (cases v) (simp_all add: known_nth)

lemma spec_within_self: "spec_within_tolerance x x"
  by (simp add: spec_within_tolerance_def)

text \<open>How a call that returns true changes the state.\<close>

lemma validate_True_cases:
  assumes "validate v st = Inr (True, st')"
  shows "(deq v (last_correct_value st) \<and> st' = st) \<or>
     (st' = st\<lparr>last_correct_value := v\<rparr> \<and>
      (\<exists>j<316. within_tolerance v (known_xtals ! j) \<or> v = known_xtals ! j))"
proof (cases "deq v (last_correct_value st)")
  case True
  then show ?thesis
    using assms by (simp add: validate_def cache_hit)
next
  case miss: False
  show ?thesis
  proof (cases "walk known_xtals 315 v 0 8")
    case None
    then obtain j where "j \<le> 315" "within_tolerance v (known_xtals ! j)"
      using walk_None by blast
    then have "\<exists>j<316. within_tolerance v (known_xtals ! j) \<or> v = known_xtals ! j"
      by (intro exI [of _ j]) simp
    then show ?thesis
      using assms miss None by (simp add: validate_walk)
  next
    case (Some n)
    then have n: "n < 316"
      using walk_le [of 0 315 known_xtals v 8 n] by simp
    have eq: "deq v (known_xtals ! n)"
      using assms miss Some by (simp add: validate_walk split: if_splits)
    then have "v = known_xtals ! n"
      using n by (intro deq_entry)
    then have "\<exists>j<316. within_tolerance v (known_xtals ! j) \<or> v = known_xtals ! j"
      using n by blast
    then show ?thesis
      using assms miss Some eq by (simp add: validate_walk)
  qed
qed

lemma validate_on_frame:
  "validate_on tbl base_clock st = Inr (b, st') \<Longrightarrow>
     (b \<longrightarrow> xtal_error_low st' = xtal_error_low st \<and> xtal_error_high st' = xtal_error_high st) \<and>
     (\<not> b \<longrightarrow> last_correct_value st' = last_correct_value st)"
  by (auto simp: validate_on_def Let_def split: if_splits sum.splits loop_exit.splits)

text \<open>The cache holds \<open>-1\<close> or a positive double within the specification's tolerance of an
  entry.\<close>

lemma reachable_cache:
  "reachable st \<Longrightarrow>
     last_correct_value st = Finite (- 1) \<or>
     (\<exists>x j. last_correct_value st = Finite x \<and> 0 < x \<and> j < 316 \<and>
        spec_within_tolerance x (of_int (xtal_hz ! j)))"
proof (induction rule: reachable.induct)
  case start
  then show ?case
    by (simp add: initial_state_def)
next
  case (call st base_clock b st')
  show ?case
  proof (cases b)
    case False
    then have "last_correct_value st' = last_correct_value st"
      using call.hyps(3) validate_on_frame [of known_xtals base_clock st b st']
      by (simp add: validate_def)
    then show ?thesis
      using call.IH by simp
  next
    case True
    then have "validate base_clock st = Inr (True, st')"
      using call.hyps(3) by simp
    then consider "st' = st"
      | j where "j < 316" "st' = st\<lparr>last_correct_value := base_clock\<rparr>"
          "within_tolerance base_clock (known_xtals ! j)"
      | j where "j < 316" "st' = st\<lparr>last_correct_value := base_clock\<rparr>"
          "base_clock = known_xtals ! j"
      using validate_True_cases [of base_clock st st'] by blast
    then show ?thesis
    proof cases
      case 1
      then show ?thesis
        using call.IH by simp
    next
      case 2
      then show ?thesis
        using entry_spec_close [OF call.hyps(2) 2(1) 2(3)] by auto
    next
      case 3
      then show ?thesis
        using hz_nth_range [of j] spec_within_self by (auto simp: known_nth)
    qed
  qed
qed

lemma reachable_cache_nonzero:
  "reachable st \<Longrightarrow> \<exists>q. last_correct_value st = Finite q \<and> q \<noteq> 0"
  using reachable_cache [of st] by auto

lemma deq_nonzero: "deq v (Finite q) \<Longrightarrow> q \<noteq> 0 \<Longrightarrow> v = Finite q"
  by (cases v) simp_all

lemma spec_far_below:
  assumes "0 < x" and "s' \<le> s" and "s < x" and "\<not> spec_within_tolerance x s"
  shows "\<not> spec_within_tolerance x s'"
proof -
  have "\<bar>x - s\<bar> / x \<le> \<bar>x - s'\<bar> / x"
    using assms(1-3) by (intro divide_right_mono) simp_all
  then show ?thesis
    using assms(4) unfolding spec_within_tolerance_def by linarith
qed

lemma spec_far_above:
  assumes "0 < x" and "s \<le> s'" and "x < s" and "\<not> spec_within_tolerance x s"
  shows "\<not> spec_within_tolerance x s'"
proof -
  have "\<bar>x - s\<bar> / x \<le> \<bar>x - s'\<bar> / x"
    using assms(1-3) by (intro divide_right_mono) simp_all
  then show ?thesis
    using assms(4) unfolding spec_within_tolerance_def by linarith
qed

lemma hz_le: "i \<le> j \<Longrightarrow> j < 316 \<Longrightarrow> xtal_hz ! i \<le> xtal_hz ! j"
  using hz_less [of i j] by (cases "i = j") simp_all

text \<open>A positive double that is far from every entry, in a reachable state or in any
  state whose cache does not hold it: the call misses the cache, and the loop ends at the
  last entry below the candidate (or at index 0).\<close>

lemma validate_lands:
  assumes r: "reachable st \<or> \<not> deq (Finite x) (last_correct_value st)"
    and b: "is_binary64 (Finite x)" and x: "0 < x"
    and far: "\<And>j. j < 316 \<Longrightarrow> \<not> spec_within_tolerance x (of_int (xtal_hz ! j))"
    and gt: "\<And>j. 1 \<le> j \<Longrightarrow> j < 316 \<Longrightarrow> (of_int (xtal_hz ! j) < x) = (j \<le> i)"
    and i: "i < 316"
  shows "\<not> deq (Finite x) (last_correct_value st)"
    and "walk known_xtals 315 (Finite x) 0 8 = Some i"
proof -
  show "\<not> deq (Finite x) (last_correct_value st)"
  proof (cases "reachable st")
    case True
    then show ?thesis
      using reachable_cache [of st] x far by auto
  next
    case False
    then show ?thesis
      using r by simp
  qed
  have miss: "\<not> within_tolerance (Finite x) (known_xtals ! j)" if "j \<le> 315" for j
    using entry_spec_close [OF b, of j] far [of j] that by auto
  have "dgt (Finite x) (known_xtals ! j) = (j \<le> i)" if "1 \<le> j" "j \<le> 315" for j
    using gt [of j] that by (simp add: dgt_def known_nth)
  then show "walk known_xtals 315 (Finite x) 0 8 = Some i"
    using miss i by (intro walk_lands) simp_all
qed

lemma validate_between:
  assumes r: "reachable st \<or> \<not> deq (Finite x) (last_correct_value st)"
    and b: "is_binary64 (Finite x)" and i: "Suc i < 316"
    and lo: "of_int (xtal_hz ! i) < x" and hi: "x < of_int (xtal_hz ! Suc i)"
    and flo: "\<not> spec_within_tolerance x (of_int (xtal_hz ! i))"
    and fhi: "\<not> spec_within_tolerance x (of_int (xtal_hz ! Suc i))"
  shows "validate (Finite x) st =
    Inr (False, st\<lparr>xtal_error_low := known_xtals ! i, xtal_error_high := known_xtals ! Suc i\<rparr>)"
proof -
  have x: "0 < x"
    using lo hz_nth_range [of i] i by (simp add: order.strict_trans [of 0 "of_int (xtal_hz ! i)"])
  have far: "\<not> spec_within_tolerance x (of_int (xtal_hz ! j))" if "j < 316" for j
  proof (cases "j \<le> i")
    case True
    then have "(of_int (xtal_hz ! j) :: rat) \<le> of_int (xtal_hz ! i)"
      using hz_le [of j i] i by simp
    then show ?thesis
      by (rule spec_far_below [OF x _ lo flo])
  next
    case False
    then have "(of_int (xtal_hz ! Suc i) :: rat) \<le> of_int (xtal_hz ! j)"
      using hz_le [of "Suc i" j] that by simp
    then show ?thesis
      by (rule spec_far_above [OF x _ hi fhi])
  qed
  have gt: "(of_int (xtal_hz ! j) < x) = (j \<le> i)" if "j < 316" for j
  proof (cases "j \<le> i")
    case True
    then have "(of_int (xtal_hz ! j) :: rat) \<le> of_int (xtal_hz ! i)"
      using hz_le [of j i] i by simp
    then show ?thesis
      using lo True by simp
  next
    case False
    then have "(of_int (xtal_hz ! Suc i) :: rat) \<le> of_int (xtal_hz ! j)"
      using hz_le [of "Suc i" j] that by simp
    then show ?thesis
      using hi False by simp
  qed
  have i': "i < 316"
    using i by simp
  have gt': "(of_int (xtal_hz ! j) < x) = (j \<le> i)" if "1 \<le> j" "j < 316" for j
    using gt [OF that(2)] .
  have "\<not> deq (Finite x) (last_correct_value st)"
    and "walk known_xtals 315 (Finite x) 0 8 = Some i"
    using validate_lands [OF r b x far gt' i'] by simp_all
  then show ?thesis
    using i lo gt [of i] by (simp add: validate_walk known_nth)
qed

lemma validate_below:
  assumes r: "reachable st \<or> \<not> deq (Finite x) (last_correct_value st)"
    and b: "is_binary64 (Finite x)" and x: "0 < x"
    and lo: "x < of_int (xtal_hz ! 0)"
    and flo: "\<not> spec_within_tolerance x (of_int (xtal_hz ! 0))"
  shows "validate (Finite x) st =
    Inr (False, st\<lparr>xtal_error_low := Finite 0, xtal_error_high := known_xtals ! 0\<rparr>)"
proof -
  have le: "(of_int (xtal_hz ! 0) :: rat) \<le> of_int (xtal_hz ! j)" if "j < 316" for j
    using hz_le [of 0 j] that by simp
  have far: "\<not> spec_within_tolerance x (of_int (xtal_hz ! j))" if "j < 316" for j
    using x le [OF that] lo flo by (rule spec_far_above)
  have gt: "(of_int (xtal_hz ! j) < x) = (j \<le> 0)" if "1 \<le> j" "j < 316" for j
    using le [OF that(2)] lo that(1) by simp
  have "\<not> deq (Finite x) (last_correct_value st)"
    and "walk known_xtals 315 (Finite x) 0 8 = Some 0"
    using validate_lands [OF r b x far gt] by simp_all
  then show ?thesis
    using lo by (simp add: validate_walk known_nth)
qed

lemma validate_above:
  assumes r: "reachable st \<or> \<not> deq (Finite x) (last_correct_value st)"
    and b: "is_binary64 (Finite x)"
    and hi: "of_int (xtal_hz ! 315) < x"
    and fhi: "\<not> spec_within_tolerance x (of_int (xtal_hz ! 315))"
  shows "validate (Finite x) st =
    Inr (False, st\<lparr>xtal_error_low := known_xtals ! 315, xtal_error_high := Finite 0\<rparr>)"
proof -
  have x: "0 < x"
    using hi hz_nth_range [of 315] by (simp add: order.strict_trans [of 0 "of_int (xtal_hz ! 315)"])
  have le: "(of_int (xtal_hz ! j) :: rat) \<le> of_int (xtal_hz ! 315)" if "j < 316" for j
    using hz_le [of j 315] that by simp
  have far: "\<not> spec_within_tolerance x (of_int (xtal_hz ! j))" if "j < 316" for j
    using x le [OF that] hi fhi by (rule spec_far_below)
  have gt: "(of_int (xtal_hz ! j) < x) = (j \<le> 315)" if "1 \<le> j" "j < 316" for j
    using le [OF that(2)] hi that(2) by simp
  have "\<not> deq (Finite x) (last_correct_value st)"
    and "walk known_xtals 315 (Finite x) 0 8 = Some 315"
    using validate_lands [OF r b x far gt] by simp_all
  then show ?thesis
    using hi by (simp add: validate_walk known_nth)
qed

lemma binary64_of_int: "\<bar>n\<bar> < 2 ^ 53 \<Longrightarrow> is_binary64 (Finite (of_int n))"
  by (simp add: rnd_of_int)

lemma not_within_tolerance:
  assumes "is_binary64 (Finite x)" and "0 < n" and "n < 2 ^ 52"
    and "\<not> spec_within_tolerance x (of_int n)"
  shows "\<not> within_tolerance (Finite x) (Finite (of_int n))"
  using within_tolerance_exact [OF assms(1-3)] assms(4) by auto

lemma example_table:
  "validate_on [Finite 100, Finite 200, Finite 300] (Finite 250) initial_state =
     Inr (False, initial_state\<lparr>xtal_error_low := Finite 200, xtal_error_high := Finite 300\<rparr>)"
proof -
  have b: "is_binary64 (Finite 250)"
    using binary64_of_int [of 250] by simp
  have "\<not> within_tolerance (Finite 250) (Finite (of_int 300))"
    by (rule not_within_tolerance [OF b]) (simp_all add: spec_within_tolerance_def)
  then have w300: "\<not> within_tolerance (Finite 250) (Finite 300)"
    by simp
  have "\<not> within_tolerance (Finite 250) (Finite (of_int 200))"
    by (rule not_within_tolerance [OF b]) (simp_all add: spec_within_tolerance_def)
  then have w200: "\<not> within_tolerance (Finite 250) (Finite 200)"
    by simp
  have walk: "walk [Finite 100, Finite 200, Finite 300] 2 (Finite 250) 0 1 = Some 1"
    using w300 w200 by (simp add: dgt_def numeral_2_eq_2)
  have pp: "ppow2_of (of_nat 2) = 2 ^ 1"
    by (simp add: ppow2_of_def)
  have "\<not> deq (Finite 250) (last_correct_value initial_state)"
    by (simp add: initial_state_def)
  then show ?thesis
    using validate_on_walk [of "[Finite 100, Finite 200, Finite 300]" 2 1 "Finite 250" initial_state, OF _ _ pp]
    unfolding walk by simp
qed

subsection \<open>Concrete inputs\<close>

lemma eight_MHz: "known_xtals ! 66 = Finite 8000000"
  by (simp add: known_xtals_def xtal_hz_def)

lemma eight_MHz_ok:
  "validate (Finite 8000000) initial_state =
     Inr (True, initial_state\<lparr>last_correct_value := Finite 8000000\<rparr>)"
proof -
  have "\<not> deq (known_xtals ! 66) (last_correct_value initial_state)"
    by (simp add: eight_MHz initial_state_def)
  then show ?thesis
    using validate_entry [of 66 initial_state] by (simp add: eight_MHz)
qed

lemma off_by_one_Hz_far: "\<forall>s\<in>set xtal_hz. \<not> spec_within_tolerance 8000001 (of_int s)"
  by (simp add: xtal_hz_def spec_within_tolerance_def)

lemma off_by_one_Hz_double: "is_binary64 (Finite 8000001)"
  using binary64_of_int [of 8000001] by simp

lemma off_by_one_Hz_between:
  "rat_of_int (xtal_hz ! 66) < 8000001 \<and> 8000001 < rat_of_int (xtal_hz ! Suc 66)
   \<and> \<not> spec_within_tolerance 8000001 (of_int (xtal_hz ! 66))
   \<and> \<not> spec_within_tolerance 8000001 (of_int (xtal_hz ! Suc 66))"
  by (simp add: xtal_hz_def spec_within_tolerance_def)

lemma first_entry: "known_xtals ! 0 = Finite 32768" and last_entry: "known_xtals ! 315 = Finite 200000000"
  by (simp_all add: known_xtals_def xtal_hz_def)

lemma hd_last_hz: "hd xtal_hz = xtal_hz ! 0" "last xtal_hz = xtal_hz ! 315"
  by (simp_all add: xtal_hz_def)

lemma hd_last_known: "hd known_xtals = known_xtals ! 0" "last known_xtals = known_xtals ! 315"
proof -
  have ne: "known_xtals \<noteq> []"
    using known_count by auto
  show "hd known_xtals = known_xtals ! 0"
    using ne by (simp add: hd_conv_nth)
  show "last known_xtals = known_xtals ! 315"
    using ne by (simp add: last_conv_nth known_count)
qed

lemma one_Hz: "is_binary64 (Finite 1)" "\<not> spec_within_tolerance 1 (of_int (hd xtal_hz))"
  using binary64_of_int [of 1] by (simp_all add: hd_last_hz xtal_hz_def spec_within_tolerance_def)

lemma three_hundred_MHz:
  "is_binary64 (Finite 300000000)" "\<not> spec_within_tolerance 300000000 (of_int (last xtal_hz))"
  using binary64_of_int [of 300000000]
  by (simp_all add: hd_last_hz xtal_hz_def spec_within_tolerance_def)

lemma one_Hz_fails:
  "validate (Finite 1) initial_state =
     Inr (False, initial_state\<lparr>xtal_error_low := Finite 0, xtal_error_high := Finite 32768\<rparr>)"
proof -
  have "(1::rat) < of_int (xtal_hz ! 0)" "\<not> spec_within_tolerance 1 (of_int (xtal_hz ! 0))"
    by (simp_all add: xtal_hz_def spec_within_tolerance_def)
  then show ?thesis
    using validate_below [of initial_state 1] reachable.start one_Hz(1) by (simp add: first_entry)
qed

lemma validate_on_overwrites:
  "validate_on tbl base_clock st = Inr (False, st') \<Longrightarrow>
     st' = st\<lparr>xtal_error_low := xtal_error_low st', xtal_error_high := xtal_error_high st'\<rparr> \<and>
     validate_on tbl base_clock (st\<lparr>xtal_error_low := a, xtal_error_high := b\<rparr>) = Inr (False, st')"
  by (auto simp: validate_on_def Let_def split: if_splits sum.splits loop_exit.splits)

section \<open>The claims\<close>

text \<open>
  Claim C1. For every entry \<open>v\<close> of \<open>known_xtals\<close>, \<open>validate(v)\<close> returns true, in every state.
  Either the cache already holds \<open>v\<close>, or the search reaches the index of \<open>v\<close>: inside the
  loop the difference is zero and passes the tolerance test, and index 0, which the loop
  never probes, is caught by the comparison after the loop.
\<close>

theorem validate_accepts_table_entries:
  "\<forall>v\<in>set known_xtals. \<exists>st'. validate v st = Inr (True, st')"
proof
  fix v
  assume "v \<in> set known_xtals"
  then obtain t where t: "t < 316" and v: "v = known_xtals ! t"
    using known_count by (auto simp: in_set_conv_nth)
  show "\<exists>st'. validate v st = Inr (True, st')"
  proof (cases "deq v (last_correct_value st)")
    case True
    then show ?thesis
      by (auto simp: validate_def cache_hit)
  next
    case False
    then show ?thesis
      using validate_entry [OF t] unfolding v by blast
  qed
qed

theorem validate_accepts_table_entries_witness:
  "Finite 8000000 \<in> set known_xtals \<and> (\<exists>st'. validate (Finite 8000000) initial_state = Inr (True, st'))"
proof -
  have "known_xtals ! 66 \<in> set known_xtals"
    by (rule nth_mem) (simp add: known_count)
  then have m: "Finite 8000000 \<in> set known_xtals"
    by (simp only: eight_MHz)
  show ?thesis
    using m validate_accepts_table_entries [of initial_state, THEN bspec, OF m] by simp
qed

text \<open>
  Claim C2. Let \<open>x\<close> be a positive double that the cache does not hold and that is not within
  the tolerance \<open>|x - entry| / x <= 2 * DBL_EPSILON\<close>, in exact arithmetic, of any entry. Then
  \<open>validate(x)\<close> returns false. The proof shows that the test the code computes in binary64
  arithmetic never succeeds where the exact inequality fails (lemma
  \<open>within_tolerance_exact\<close>).
\<close>

theorem validate_rejects_outside_tolerance:
  assumes b: "is_binary64 (Finite x)" and x: "0 < x"
    and miss: "\<not> deq (Finite x) (last_correct_value st)"
    and far: "\<forall>s\<in>set xtal_hz. \<not> spec_within_tolerance x (of_int s)"
  shows "\<exists>st'. validate (Finite x) st = Inr (False, st')"
proof (cases "walk known_xtals 315 (Finite x) 0 8")
  case None
  then obtain j where j: "j \<le> 315" and wt: "within_tolerance (Finite x) (known_xtals ! j)"
    using walk_None by blast
  then have "spec_within_tolerance x (of_int (xtal_hz ! j))"
    using entry_spec_close [OF b, of j] by simp
  moreover have "xtal_hz ! j \<in> set xtal_hz"
    using j by (simp add: hz_length)
  ultimately show ?thesis
    using far by blast
next
  case (Some n)
  then have n: "n \<le> 315"
    using walk_le [of 0 315 known_xtals "Finite x" 8 n] by simp
  have "\<not> deq (Finite x) (known_xtals ! n)"
  proof
    assume "deq (Finite x) (known_xtals ! n)"
    then have "x = of_int (xtal_hz ! n)"
      using n by (simp add: known_nth)
    then have "spec_within_tolerance x (of_int (xtal_hz ! n))"
      by (simp add: spec_within_tolerance_def)
    moreover have "xtal_hz ! n \<in> set xtal_hz"
      using n by (simp add: hz_length)
    ultimately show False
      using far by blast
  qed
  then show ?thesis
    using miss Some by (simp add: validate_walk)
qed

theorem validate_rejects_outside_tolerance_witness:
  "is_binary64 (Finite 8000001) \<and> (\<exists>st'. validate (Finite 8000001) initial_state = Inr (False, st'))"
proof -
  have "\<not> deq (Finite 8000001) (last_correct_value initial_state)"
    by (simp add: initial_state_def)
  then show ?thesis
    using validate_rejects_outside_tolerance [OF off_by_one_Hz_double _ _ off_by_one_Hz_far, of initial_state]
      off_by_one_Hz_double
    by simp
qed

text \<open>
  Claim C3. Let \<open>x\<close> be a double strictly between the consecutive entries at indices \<open>i\<close> and
  \<open>i + 1\<close>, and not within tolerance of either, in a state the program can reach (or in
  any state whose cache does not hold \<open>x\<close>). Then
  \<open>validate(x)\<close> returns false, \<open>xtal_error_low\<close> becomes the entry at \<open>i\<close>, which is the
  largest entry below \<open>x\<close>, and \<open>xtal_error_high\<close> becomes the entry at \<open>i + 1\<close>, which is the
  smallest entry above \<open>x\<close>. On the table \<open>{100, 200, 300}\<close> in the initial state,
  \<open>validate(250)\<close> returns false with the brackets 200 and 300.
\<close>

theorem validate_between_entries:
  "((reachable st \<or> \<not> deq (Finite x) (last_correct_value st))
      \<and> is_binary64 (Finite x) \<and> Suc i < length xtal_hz
      \<and> of_int (xtal_hz ! i) < x \<and> x < of_int (xtal_hz ! Suc i)
      \<and> \<not> spec_within_tolerance x (of_int (xtal_hz ! i))
      \<and> \<not> spec_within_tolerance x (of_int (xtal_hz ! Suc i))
    \<longrightarrow> validate (Finite x) st =
          Inr (False, st\<lparr>xtal_error_low := known_xtals ! i, xtal_error_high := known_xtals ! Suc i\<rparr>)
        \<and> dlt (known_xtals ! i) (Finite x) \<and> dlt (Finite x) (known_xtals ! Suc i)
        \<and> (\<forall>e\<in>set known_xtals. dlt e (Finite x) \<longrightarrow> dle e (known_xtals ! i))
        \<and> (\<forall>e\<in>set known_xtals. dlt (Finite x) e \<longrightarrow> dle (known_xtals ! Suc i) e))
   \<and> validate_on [Finite 100, Finite 200, Finite 300] (Finite 250) initial_state =
        Inr (False, initial_state\<lparr>xtal_error_low := Finite 200, xtal_error_high := Finite 300\<rparr>)"
proof -
  have general: "validate (Finite x) st =
          Inr (False, st\<lparr>xtal_error_low := known_xtals ! i, xtal_error_high := known_xtals ! Suc i\<rparr>)
        \<and> dlt (known_xtals ! i) (Finite x) \<and> dlt (Finite x) (known_xtals ! Suc i)
        \<and> (\<forall>e\<in>set known_xtals. dlt e (Finite x) \<longrightarrow> dle e (known_xtals ! i))
        \<and> (\<forall>e\<in>set known_xtals. dlt (Finite x) e \<longrightarrow> dle (known_xtals ! Suc i) e)"
    if r: "reachable st \<or> \<not> deq (Finite x) (last_correct_value st)"
      and b: "is_binary64 (Finite x)" and i: "Suc i < length xtal_hz"
      and lo: "of_int (xtal_hz ! i) < x" and hi: "x < of_int (xtal_hz ! Suc i)"
      and flo: "\<not> spec_within_tolerance x (of_int (xtal_hz ! i))"
      and fhi: "\<not> spec_within_tolerance x (of_int (xtal_hz ! Suc i))"
  proof -
    have i316: "Suc i < 316"
      using i by (simp add: hz_length)
    have below: "dle e (known_xtals ! i)" if "e \<in> set known_xtals" "dlt e (Finite x)" for e
    proof -
      from that(1) obtain j where j: "j < 316" and e: "e = known_xtals ! j"
        using known_count by (auto simp: in_set_conv_nth)
      have "(of_int (xtal_hz ! j) :: rat) < of_int (xtal_hz ! Suc i)"
        using that(2) hi j by (simp add: e known_nth)
      then have "xtal_hz ! j < xtal_hz ! Suc i"
        by (simp only: of_int_less_iff)
      then have "j \<le> i"
        using hz_less_iff [OF j i316] by simp
      then have "xtal_hz ! j \<le> xtal_hz ! i"
        using hz_le [of j i] i316 by simp
      then show ?thesis
        using j i316 by (auto simp: e known_nth dle_def)
    qed
    have above: "dle (known_xtals ! Suc i) e" if "e \<in> set known_xtals" "dlt (Finite x) e" for e
    proof -
      from that(1) obtain j where j: "j < 316" and e: "e = known_xtals ! j"
        using known_count by (auto simp: in_set_conv_nth)
      have "(of_int (xtal_hz ! i) :: rat) < of_int (xtal_hz ! j)"
        using that(2) lo j by (simp add: e known_nth)
      then have "xtal_hz ! i < xtal_hz ! j"
        by (simp only: of_int_less_iff)
      then have "Suc i \<le> j"
        using hz_less_iff [of i j] j i316 by simp
      then have "xtal_hz ! Suc i \<le> xtal_hz ! j"
        using hz_le [of "Suc i" j] j by simp
      then show ?thesis
        using j i316 by (auto simp: e known_nth dle_def)
    qed
    show ?thesis
      using validate_between [OF r b i316 lo hi flo fhi] lo hi i316 below above
      by (simp add: known_nth)
  qed
  show ?thesis
    using general example_table by blast
qed

theorem validate_between_entries_witness:
  "validate (Finite 8000001) initial_state =
     Inr (False, initial_state\<lparr>xtal_error_low := Finite 8000000, xtal_error_high := Finite 8200000\<rparr>)"
proof -
  have "Suc 66 < length xtal_hz"
    by (simp add: hz_length)
  moreover have "known_xtals ! Suc 66 = Finite 8200000"
    by (simp add: known_xtals_def xtal_hz_def)
  ultimately show ?thesis
    using validate_between_entries [of initial_state 8000001 66, THEN conjunct1]
      off_by_one_Hz_between off_by_one_Hz_double reachable.start eight_MHz
    by simp
qed

text \<open>
  Claim C4. In a state the program can reach (or in any state whose cache does not hold
  the candidate), a positive double below the smallest entry
  and outside its tolerance is rejected with \<open>xtal_error_low = 0\<close>, the value that stands
  for "none", and \<open>xtal_error_high\<close> the smallest entry; a double above the largest entry and
  outside its tolerance is rejected with \<open>xtal_error_high = 0\<close> and \<open>xtal_error_low\<close> the largest
  entry. In both cases \<open>XTAL::fail\<close> has exactly one suggestion to report.
\<close>

theorem validate_outside_range:
  "((reachable st \<or> \<not> deq (Finite x) (last_correct_value st))
      \<and> is_binary64 (Finite x) \<and> 0 < x \<and> dlt (Finite x) (hd known_xtals)
      \<and> \<not> spec_within_tolerance x (of_int (hd xtal_hz))
    \<longrightarrow> (\<exists>st'. validate (Finite x) st = Inr (False, st')
          \<and> xtal_error_low st' = Finite 0 \<and> xtal_error_high st' = hd known_xtals
          \<and> fail_suggestions st' = [hd known_xtals]))
   \<and> ((reachable st \<or> \<not> deq (Finite x) (last_correct_value st))
      \<and> is_binary64 (Finite x) \<and> dlt (last known_xtals) (Finite x)
      \<and> \<not> spec_within_tolerance x (of_int (last xtal_hz))
    \<longrightarrow> (\<exists>st'. validate (Finite x) st = Inr (False, st')
          \<and> xtal_error_high st' = Finite 0 \<and> xtal_error_low st' = last known_xtals
          \<and> fail_suggestions st' = [last known_xtals]))"
proof (intro conjI impI; elim conjE)
  assume r: "reachable st \<or> \<not> deq (Finite x) (last_correct_value st)"
    and b: "is_binary64 (Finite x)" and x: "0 < x"
    and lo: "dlt (Finite x) (hd known_xtals)"
    and flo: "\<not> spec_within_tolerance x (of_int (hd xtal_hz))"
  have "x < of_int (xtal_hz ! 0)"
    using lo by (simp add: hd_last_known known_nth)
  then have "validate (Finite x) st =
      Inr (False, st\<lparr>xtal_error_low := Finite 0, xtal_error_high := known_xtals ! 0\<rparr>)"
    using flo by (intro validate_below [OF r b x]) (simp_all add: hd_last_hz)
  then show "\<exists>st'. validate (Finite x) st = Inr (False, st')
      \<and> xtal_error_low st' = Finite 0 \<and> xtal_error_high st' = hd known_xtals
      \<and> fail_suggestions st' = [hd known_xtals]"
    by (simp add: hd_last_known fail_suggestions_def first_entry)
next
  assume r: "reachable st \<or> \<not> deq (Finite x) (last_correct_value st)"
    and b: "is_binary64 (Finite x)"
    and hi: "dlt (last known_xtals) (Finite x)"
    and fhi: "\<not> spec_within_tolerance x (of_int (last xtal_hz))"
  have "of_int (xtal_hz ! 315) < x"
    using hi by (simp add: hd_last_known known_nth)
  then have "validate (Finite x) st =
      Inr (False, st\<lparr>xtal_error_low := known_xtals ! 315, xtal_error_high := Finite 0\<rparr>)"
    using fhi by (intro validate_above [OF r b]) (simp_all add: hd_last_hz)
  then show "\<exists>st'. validate (Finite x) st = Inr (False, st')
      \<and> xtal_error_high st' = Finite 0 \<and> xtal_error_low st' = last known_xtals
      \<and> fail_suggestions st' = [last known_xtals]"
    by (simp add: hd_last_known fail_suggestions_def last_entry)
qed

theorem validate_outside_range_witness:
  "(\<exists>st'. validate (Finite 1) initial_state = Inr (False, st')
      \<and> xtal_error_low st' = Finite 0 \<and> xtal_error_high st' = Finite 32768
      \<and> fail_suggestions st' = [Finite 32768])
   \<and> (\<exists>st'. validate (Finite 300000000) initial_state = Inr (False, st')
      \<and> xtal_error_high st' = Finite 0 \<and> xtal_error_low st' = Finite 200000000
      \<and> fail_suggestions st' = [Finite 200000000])"
proof -
  have "dlt (Finite 1) (hd known_xtals)" "dlt (last known_xtals) (Finite 300000000)"
    by (simp_all add: hd_last_known first_entry last_entry)
  then show ?thesis
    using validate_outside_range [of initial_state 1, THEN conjunct1]
      validate_outside_range [of initial_state 300000000, THEN conjunct2]
      one_Hz three_hundred_MHz reachable.start
    by (simp add: hd_last_known first_entry last_entry)
qed

text \<open>
  Claim C5. \<open>XTAL::validate(double)\<close> is total: for every double and every state it returns
  a boolean and a state, and never reads \<open>known_xtals\<close> outside its bounds. The loop
  terminates because \<open>step\<close> is halved in every iteration (the termination proof of
  \<open>search\<close>, by the measure \<open>unat step\<close>); the reads inside the loop are guarded by
  \<open>slot > last_index\<close>, and the final \<open>slot\<close> is at most \<open>last_index\<close> (lemma \<open>walk_le\<close>), so
  the reads after the loop are in range as well.
\<close>

theorem validate_total: "\<exists>b st'. validate base_clock st = Inr (b, st')"
proof (cases "deq base_clock (last_correct_value st)")
  case True
  then show ?thesis
    by (auto simp: validate_def cache_hit)
next
  case False
  then show ?thesis
    by (auto simp: validate_walk split: option.split)
qed

text \<open>
  Claim C6. \<open>known_xtals\<close> is strictly ascending: each entry is less than its successor,
  hence any earlier entry is less than any later one and no entry occurs twice; and every
  entry is positive.
\<close>

theorem known_xtals_strictly_ascending:
  "(\<forall>i. Suc i < length known_xtals \<longrightarrow> dlt (known_xtals ! i) (known_xtals ! Suc i))
   \<and> sorted_wrt dlt known_xtals
   \<and> distinct known_xtals
   \<and> (\<forall>v\<in>set known_xtals. dlt (Finite 0) v)"
proof -
  have a: "dlt (known_xtals ! i) (known_xtals ! Suc i)" if "Suc i < length known_xtals" for i
    using that hz_less [of i "Suc i"] by (simp add: known_count known_nth)
  have b: "sorted_wrt dlt known_xtals"
    using hz_sorted by (simp add: known_xtals_def sorted_wrt_map)
  have "distinct xtal_hz"
    using hz_sorted by (simp add: strict_sorted_iff)
  then have c: "distinct known_xtals"
    by (simp add: known_xtals_def distinct_map inj_on_def)
  have d: "dlt (Finite 0) v" if "v \<in> set known_xtals" for v
    using that hz_range by (auto simp: known_xtals_def)
  show ?thesis
    using a b c d by blast
qed

theorem known_xtals_strictly_ascending_witness:
  "dlt (Finite 32768) (Finite 38400) \<and> dlt (Finite 0) (Finite 32768)"
proof -
  have "Suc 0 < length known_xtals" and m: "known_xtals ! 0 \<in> set known_xtals"
    by (simp_all add: known_count)
  moreover have "known_xtals ! Suc 0 = Finite 38400"
    by (simp add: known_xtals_def xtal_hz_def)
  ultimately show ?thesis
    using known_xtals_strictly_ascending [THEN conjunct1, rule_format, of 0]
      known_xtals_strictly_ascending [THEN conjunct2, THEN conjunct2, THEN conjunct2, THEN bspec, OF m]
    by (simp only: first_entry)
qed

text \<open>
  Claim C7. A call that returns false changes nothing but the two bracket fields, and the
  state it leaves does not depend on the brackets it found: started with any other values
  \<open>a\<close> and \<open>b\<close> in \<open>xtal_error_low\<close> and \<open>xtal_error_high\<close>, the same call returns false with the
  same final state. Both fields are therefore written by every failing call, and no
  bracket of an earlier failure survives.
\<close>

theorem validate_failure_overwrites_brackets:
  "validate base_clock st = Inr (False, st') \<Longrightarrow>
     st' = st\<lparr>xtal_error_low := xtal_error_low st', xtal_error_high := xtal_error_high st'\<rparr> \<and>
     (\<forall>a b. validate base_clock (st\<lparr>xtal_error_low := a, xtal_error_high := b\<rparr>) = Inr (False, st'))"
  using validate_on_overwrites [of known_xtals base_clock st st'] by (simp add: validate_def)

theorem validate_failure_overwrites_brackets_witness:
  "validate (Finite 1) (initial_state\<lparr>xtal_error_low := Finite 8000000, xtal_error_high := Finite 8200000\<rparr>) =
     Inr (False, initial_state\<lparr>xtal_error_low := Finite 0, xtal_error_high := Finite 32768\<rparr>)"
  using validate_failure_overwrites_brackets [OF one_Hz_fails] by simp

text \<open>
  Claim C8. In a state the program can reach, a call \<open>validate(v)\<close> that returns true leaves
  \<open>last_correct_value = v\<close>. A second call with the same \<open>v\<close> returns true again and leaves
  the state as it is; it does so for every table, so the table is not consulted: this is
  the fast path.
\<close>

theorem validate_caches_confirmed_value:
  assumes r: "reachable st" and ok: "validate v st = Inr (True, st')"
  shows "last_correct_value st' = v
     \<and> validate v st' = Inr (True, st')
     \<and> (\<forall>tbl. validate_on tbl v st' = Inr (True, st'))"
proof -
  have c: "last_correct_value st' = v"
  proof -
    consider "deq v (last_correct_value st)" "st' = st"
      | "st' = st\<lparr>last_correct_value := v\<rparr>"
      using validate_True_cases [OF ok] by blast
    then show ?thesis
    proof cases
      case 1
      obtain q where "last_correct_value st = Finite q" "q \<noteq> 0"
        using reachable_cache_nonzero [OF r] by blast
      then show ?thesis
        using 1 deq_nonzero [of v q] by simp
    next
      case 2
      then show ?thesis
        by simp
    qed
  qed
  have self: "deq v v"
  proof -
    consider "deq v (last_correct_value st)"
      | j :: nat where "j < 316" "within_tolerance v (known_xtals ! j) \<or> v = known_xtals ! j"
      using validate_True_cases [OF ok] by blast
    then show ?thesis
    proof cases
      case 1
      then show ?thesis
        by (cases v; cases "last_correct_value st") simp_all
    next
      case 2
      then obtain x where "v = Finite x"
        using within_tolerance_finite [of v "of_int (xtal_hz ! j)"] hz_nth_range [of j]
        by (auto simp: known_nth)
      then show ?thesis
        by simp
    qed
  qed
  then have "deq v (last_correct_value st')"
    using c by simp
  then have "validate_on tbl v st' = Inr (True, st')" for tbl
    by (rule cache_hit)
  then show ?thesis
    using c by (simp add: validate_def)
qed

theorem validate_caches_confirmed_value_witness:
  "validate (Finite 8000000) (initial_state\<lparr>last_correct_value := Finite 8000000\<rparr>) =
     Inr (True, initial_state\<lparr>last_correct_value := Finite 8000000\<rparr>)
   \<and> validate_on [] (Finite 8000000) (initial_state\<lparr>last_correct_value := Finite 8000000\<rparr>) =
     Inr (True, initial_state\<lparr>last_correct_value := Finite 8000000\<rparr>)"
  using validate_caches_confirmed_value [OF reachable.start eight_MHz_ok] by simp

text \<open>
  Claim C9. In the initial state the cache holds \<open>-1\<close>, so \<open>validate(-1)\<close> returns true on
  the fast path and leaves the state as it is, whatever the table contains, although \<open>-1\<close>
  is no entry of \<open>known_xtals\<close> and is not positive. The input is never checked for being
  positive.
\<close>

theorem validate_minus_one_fresh:
  "validate (Finite (- 1)) initial_state = Inr (True, initial_state)
   \<and> (\<forall>tbl. validate_on tbl (Finite (- 1)) initial_state = Inr (True, initial_state))
   \<and> Finite (- 1) \<notin> set known_xtals
   \<and> \<not> dlt (Finite 0) (Finite (- 1))"
proof -
  have "validate_on tbl (Finite (- 1)) initial_state = Inr (True, initial_state)" for tbl
    by (rule cache_hit) (simp add: initial_state_def)
  moreover have "Finite (- 1) \<notin> set known_xtals"
    by (simp add: known_xtals_def xtal_hz_def)
  ultimately show ?thesis
    by (simp add: validate_def)
qed



text \<open>
  Claim C10. A call that returns true leaves \<open>xtal_error_low\<close> and \<open>xtal_error_high\<close> as they
  were; a call that returns false leaves \<open>last_correct_value\<close> as it was.
\<close>

theorem validate_frame:
  "validate base_clock st = Inr (b, st') \<Longrightarrow>
     (b \<longrightarrow> xtal_error_low st' = xtal_error_low st \<and> xtal_error_high st' = xtal_error_high st) \<and>
     (\<not> b \<longrightarrow> last_correct_value st' = last_correct_value st)"
  using validate_on_frame [of known_xtals base_clock st b st'] by (simp add: validate_def)

theorem validate_frame_witness:
  "(\<exists>st'. validate (Finite 8000000) initial_state = Inr (True, st')
      \<and> xtal_error_low st' = Finite 0 \<and> xtal_error_high st' = Finite 0)
   \<and> (\<exists>st'. validate (Finite 1) initial_state = Inr (False, st')
      \<and> last_correct_value st' = Finite (- 1))"
  using validate_frame [OF eight_MHz_ok] validate_frame [OF one_Hz_fails] eight_MHz_ok one_Hz_fails
  by (simp add: initial_state_def)

end
